theory Spec2Isabelle
  imports Main "HOL-Library.Monad_Syntax"
begin

section \<open>C arithmetic used by the hash table\<close>

text \<open>
  The table of \<^verbatim>\<open>hash_table.c\<close> computes with \<^verbatim>\<open>int\<close> (32 bits), \<^verbatim>\<open>long\<close>
  (64 bits) and \<^verbatim>\<open>char\<close> (signed, 8 bits), as on x86-64 Linux. Every operation of the
  model returns an \<open>option\<close>: \<open>None\<close> stands for a call with no defined result, because
  the C computation leaves defined behaviour (signed overflow, division by zero,
  conversion of an out-of-range \<^verbatim>\<open>double\<close>, an array access outside the bucket array,
  \<^verbatim>\<open>free\<close> of an object that \<^verbatim>\<open>malloc\<close> did not return). A probe loop that finds no exit
  is such a call: it counts its attempts in an \<^verbatim>\<open>int\<close>, and the index computation
  overflows after finitely many of them. What a compiled program does from there on is
  not modelled. Allocation is assumed to succeed. Keys and values are C strings, that is,
  \<open>string\<close>s without the NUL character.
\<close>

definition INT_MAX :: int where
  "INT_MAX = 2147483647"

definition INT_MIN :: int where
  "INT_MIN = - 2147483648"

definition LONG_MAX :: int where
  "LONG_MAX = 9223372036854775807"

definition LONG_MIN :: int where
  "LONG_MIN = - 9223372036854775808"

text \<open>The value of an \<^verbatim>\<open>int\<close> (a \<^verbatim>\<open>long\<close>) expression: undefined on signed overflow.\<close>

definition c_int :: "int \<Rightarrow> int option" where
  "c_int x = (if INT_MIN \<le> x \<and> x \<le> INT_MAX then Some x else None)"

definition c_long :: "int \<Rightarrow> int option" where
  "c_long x = (if LONG_MIN \<le> x \<and> x \<le> LONG_MAX then Some x else None)"

text \<open>C's \<^verbatim>\<open>/\<close> and \<^verbatim>\<open>%\<close> truncate towards zero; a zero divisor is undefined.\<close>

definition c_div :: "int \<Rightarrow> int \<Rightarrow> int option" where
  "c_div a b = (if b = 0 then None else Some (sgn a * sgn b * (\<bar>a\<bar> div \<bar>b\<bar>)))"

definition c_mod :: "int \<Rightarrow> int \<Rightarrow> int option" where
  "c_mod a b = (if b = 0 then None else Some (sgn a * (\<bar>a\<bar> mod \<bar>b\<bar>)))"

text \<open>The value of a \<^verbatim>\<open>char\<close> promoted to \<^verbatim>\<open>int\<close>: bytes from 128 on are negative.\<close>

definition c_char :: "char \<Rightarrow> int" where
  "c_char c = (let n = of_char c in if n < 128 then n else n - 256)"

text \<open>
  \<^verbatim>\<open>pow\<close> works on \<^verbatim>\<open>double\<close>s, which carry 53 significant bits: an integer below
  \<open>2 ^ 53\<close> is represented exactly, a larger one is rounded to the nearest
  \<^verbatim>\<open>double\<close> (ties to even). \<open>pow_long a e\<close> is \<^verbatim>\<open>(long)pow(a, e)\<close> for an exponent
  \<open>e \<ge> 0\<close>; the conversion is undefined when the \<^verbatim>\<open>double\<close> is outside the range of
  \<^verbatim>\<open>long\<close>.
\<close>

function bitlen :: "int \<Rightarrow> nat" where
  "bitlen n = (if n \<le> 0 then 0 else Suc (bitlen (n div 2)))"
  by pat_completeness auto
termination
  by (relation "measure nat") auto

declare bitlen.simps [simp del]

definition round_double :: "int \<Rightarrow> int" where
  "round_double x =
     (let n = \<bar>x\<bar>;
          e = bitlen n - 53;
          q = n div 2 ^ e;
          r = n mod 2 ^ e;
          q' = (if 2 ^ e < 2 * r \<or> (2 * r = 2 ^ e \<and> odd q) then q + 1 else q)
      in sgn x * (q' * 2 ^ e))"

definition pow_long :: "int \<Rightarrow> nat \<Rightarrow> int option" where
  "pow_long a e = c_long (round_double (a ^ e))"

section \<open>Data model (\<^verbatim>\<open>hash_table.h\<close>)\<close>

definition HT_INITIAL_BASE_SIZE :: int where
  "HT_INITIAL_BASE_SIZE = 50"

definition HT_PRIME_1 :: int where
  "HT_PRIME_1 = 131"

definition HT_PRIME_2 :: int where
  "HT_PRIME_2 = 151"

text \<open>\<^verbatim>\<open>struct ht_item\<close>: an owned key and value.\<close>

datatype ht_item = Item (item_key: string) (item_value: string)

text \<open>
  A slot of \<^verbatim>\<open>ht_item** items\<close>: the null pointer, the address of the static
  \<^verbatim>\<open>HT_DELETED_ITEM\<close>, or a pointer to an allocated item.
\<close>

datatype bucket = NULL | HT_DELETED_ITEM | Ptr (the_item: ht_item)

text \<open>\<^verbatim>\<open>struct ht_hash_table\<close>; \<open>size_ht\<close> is the field \<^verbatim>\<open>size\<close>.\<close>

record ht_hash_table =
  base_size :: int
  size_ht :: int
  count :: int
  items :: "bucket list"

section \<open>The prime-size oracle\<close>

definition prime_nat :: "nat \<Rightarrow> bool" where
  "prime_nat p = (1 < p \<and> (\<forall>d \<in> {2..<p}. \<not> d dvd p))"

definition is_prime :: "int \<Rightarrow> bool" where
  "is_prime x = prime_nat (nat x)"

lemma prime_factor_exists:
  assumes "1 < (n::nat)"
  shows "\<exists>p. prime_nat p \<and> p dvd n"
proof -
  define p where "p = (LEAST d. 1 < d \<and> d dvd n)"
  have ex: "1 < n \<and> n dvd n" using assms by simp
  have p: "1 < p \<and> p dvd n"
    unfolding p_def by (rule LeastI [of "\<lambda>d. 1 < d \<and> d dvd n" n]) (rule ex)
  have least: "\<And>d. 1 < d \<Longrightarrow> d dvd n \<Longrightarrow> p \<le> d"
    unfolding p_def by (rule Least_le) simp
  have "\<not> d dvd p" if "d \<in> {2..<p}" for d
  proof
    assume "d dvd p"
    with p have "d dvd n" by (blast intro: dvd_trans)
    moreover from that have "1 < d" "d < p" by auto
    ultimately show False using least [of d] by simp
  qed
  with p show ?thesis unfolding prime_nat_def by blast
qed

lemma prime_above: "\<exists>p. prime_nat p \<and> n < p"
proof -
  have "1 < fact n + (1::nat)" by (simp add: fact_gt_zero less_eq_Suc_le [symmetric])
  then obtain p where p: "prime_nat p" "p dvd fact n + 1"
    using prime_factor_exists by blast
  have "n < p"
  proof (rule ccontr)
    assume "\<not> n < p"
    with p(1) have "1 \<le> p" "p \<le> n" by (auto simp: prime_nat_def)
    then have "p dvd fact n" by (rule dvd_fact)
    then have "p dvd fact n + 1 \<longleftrightarrow> p dvd 1" by (rule dvd_add_right_iff)
    with p(2) have "p dvd 1" by simp
    with p(1) show False by (simp add: prime_nat_def)
  qed
  with p(1) show ?thesis by blast
qed

lemma is_prime_above: "\<exists>p. is_prime p \<and> n \<le> p"
proof -
  obtain q where "prime_nat q" "nat n < q" using prime_above by blast
  then have "is_prime (int q) \<and> n \<le> int q" by (simp add: is_prime_def)
  then show ?thesis ..
qed

text \<open>
  Modelled from the spec: \<^verbatim>\<open>next_prime\<close> is called by \<^verbatim>\<open>ht_new_sized\<close> but its
  source file is not part of the repository snapshot. The spec (4.1) gives the contract:
  the smallest prime \<open>\<ge> n\<close>, and 2 for \<open>n \<le> 1\<close>. The model counts upwards from \<open>n\<close>
  to the first prime.
\<close>

function next_prime :: "int \<Rightarrow> int" where
  "next_prime n = (if is_prime n then n else next_prime (n + 1))"
  by pat_completeness auto
termination
proof (relation "measure (\<lambda>n. nat (int (LEAST p. is_prime (int p) \<and> n \<le> int p) - n))")
  show "wf (measure (\<lambda>n. nat (int (LEAST p. is_prime (int p) \<and> n \<le> int p) - n)))"
    by simp
next
  fix n :: int
  assume np: "\<not> is_prime n"
  let ?Q = "\<lambda>m p. is_prime (int p) \<and> m \<le> int p"
  obtain q where q: "is_prime q" "n + 1 \<le> q" using is_prime_above by blast
  then have q0: "0 \<le> q" by (auto simp: is_prime_def prime_nat_def)
  with q have ex1: "?Q (n + 1) (nat q)" by simp
  have L1: "?Q (n + 1) (LEAST p. ?Q (n + 1) p)" using ex1 by (rule LeastI)
  have eq: "(LEAST p. ?Q n p) = (LEAST p. ?Q (n + 1) p)"
  proof (rule Least_equality)
    show "?Q n (LEAST p. ?Q (n + 1) p)" using L1 by simp
  next
    fix y assume y: "?Q n y"
    with np have "int y \<noteq> n" by auto
    with y have "?Q (n + 1) y" by simp
    then show "(LEAST p. ?Q (n + 1) p) \<le> y" by (rule Least_le)
  qed
  have "n + 1 \<le> int (LEAST p. ?Q (n + 1) p)" using L1 by simp
  then show "(n + 1, n) \<in> measure (\<lambda>n. nat (int (LEAST p. is_prime (int p) \<and> n \<le> int p) - n))"
    unfolding eq [symmetric] in_measure by simp
qed

declare next_prime.simps [simp del]

section \<open>Creating a table\<close>

text \<open>\<^verbatim>\<open>ht_new_item\<close> copies the key and the value (\<^verbatim>\<open>strdup\<close>) into a fresh item.\<close>

definition ht_new_item :: "string \<Rightarrow> string \<Rightarrow> ht_item" where
  "ht_new_item k v = Item k v"

text \<open>\<^verbatim>\<open>ht_new_sized\<close>: \<^verbatim>\<open>calloc\<close> gives \<open>size\<close> null pointers.\<close>

definition ht_new_sized :: "int \<Rightarrow> ht_hash_table" where
  "ht_new_sized bs =
     \<lparr>base_size = bs, size_ht = next_prime bs, count = 0,
      items = replicate (nat (next_prime bs)) NULL\<rparr>"

definition ht_new :: ht_hash_table where
  "ht_new = ht_new_sized HT_INITIAL_BASE_SIZE"

section \<open>Hash functions\<close>

text \<open>
  \<^verbatim>\<open>ht_hash\<close>: the loop runs over the characters of \<open>s\<close>; at character \<open>s[i]\<close> the
  exponent \<^verbatim>\<open>len_s - (i+1)\<close> is the number of characters that follow it.
\<close>

fun ht_hash_loop :: "string \<Rightarrow> int \<Rightarrow> int \<Rightarrow> int \<Rightarrow> int option" where
  "ht_hash_loop [] a m hash = Some hash"
| "ht_hash_loop (c # cs) a m hash = do {
     p \<leftarrow> pow_long a (length cs);
     t \<leftarrow> c_long (p * c_char c);
     h \<leftarrow> c_long (hash + t);
     h' \<leftarrow> c_mod h m;
     ht_hash_loop cs a m h'
   }"

definition ht_hash :: "string \<Rightarrow> int \<Rightarrow> int \<Rightarrow> int option" where
  "ht_hash s a m = ht_hash_loop s a m 0"

definition ht_get_hash :: "string \<Rightarrow> int \<Rightarrow> int \<Rightarrow> int option" where
  "ht_get_hash s num_buckets attempt = do {
     hash_a \<leftarrow> ht_hash s HT_PRIME_1 num_buckets;
     hash_b \<leftarrow> ht_hash s HT_PRIME_2 num_buckets;
     step \<leftarrow> c_int (hash_b + 1);
     prod \<leftarrow> c_int (attempt * step);
     sum \<leftarrow> c_int (hash_a + prod);
     c_mod sum num_buckets
   }"

section \<open>Table operations\<close>

text \<open>\<^verbatim>\<open>ht->items[index]\<close>: a read outside the allocated array is undefined.\<close>

definition item_at :: "ht_hash_table \<Rightarrow> int \<Rightarrow> bucket option" where
  "item_at ht index =
     (if 0 \<le> index \<and> index < int (length (items ht)) then Some (items ht ! nat index)
      else None)"

text \<open>\<^verbatim>\<open>ht->items[index] = b\<close>, at an index that was read before.\<close>

definition set_item :: "ht_hash_table \<Rightarrow> int \<Rightarrow> bucket \<Rightarrow> ht_hash_table" where
  "set_item ht index b = ht\<lparr>items := (items ht)[nat index := b]\<rparr>"

text \<open>\<^verbatim>\<open>ht->count * 100 / ht->size\<close>.\<close>

definition ht_load :: "ht_hash_table \<Rightarrow> int option" where
  "ht_load ht = do {
     x \<leftarrow> c_int (count ht * 100);
     q \<leftarrow> c_div x (size_ht ht);
     c_int q
   }"

text \<open>A for loop over a list in the option monad.\<close>

fun ofold :: "('a \<Rightarrow> 's \<Rightarrow> 's option) \<Rightarrow> 'a list \<Rightarrow> 's \<Rightarrow> 's option" where
  "ofold f [] s = Some s"
| "ofold f (x # xs) s = Option.bind (f x s) (ofold f xs)"

lemma ofold_mono [partial_function_mono]:
  assumes "\<And>x s. mono_option (\<lambda>f. B f x s)"
  shows "mono_option (\<lambda>f. ofold (B f) xs s)"
  using assms by (induction xs arbitrary: s) (auto intro!: partial_function_mono)

text \<open>
  \<^verbatim>\<open>ht_del_item\<close> frees the key, the value and the item. \<^verbatim>\<open>free\<close> is defined on what
  \<^verbatim>\<open>malloc\<close> returned: on the static \<^verbatim>\<open>HT_DELETED_ITEM\<close> it is undefined, and the null
  pointer has no fields to read.
\<close>

definition ht_del_item :: "bucket \<Rightarrow> unit option" where
  "ht_del_item i = (case i of Ptr it \<Rightarrow> Some () | HT_DELETED_ITEM \<Rightarrow> None | NULL \<Rightarrow> None)"

text \<open>
  \<^verbatim>\<open>ht_del_hash_table\<close> hands every bucket that is not null to \<^verbatim>\<open>ht_del_item\<close>, the
  tombstones too.
\<close>

definition ht_del_hash_table :: "ht_hash_table \<Rightarrow> unit option" where
  "ht_del_hash_table ht =
     ofold (\<lambda>i _. do {
         item \<leftarrow> item_at ht (int i);
         if item \<noteq> NULL then ht_del_item item else Some ()
       }) [0..<nat (size_ht ht)] ()"

text \<open>
  The \<^verbatim>\<open>while (cur_item != NULL)\<close> loop of \<^verbatim>\<open>ht_insert\<close>. The state is the table, the
  current \<open>index\<close>, the bucket \<open>cur_item\<close> read there and the next attempt \<open>i\<close>.
\<close>

partial_function (option) ht_insert_loop ::
  "ht_hash_table \<Rightarrow> ht_item \<Rightarrow> string \<Rightarrow> int \<Rightarrow> bucket \<Rightarrow> int \<Rightarrow> ht_hash_table option" where
  "ht_insert_loop ht item key index cur_item i =
     (if cur_item = NULL then do {
        c \<leftarrow> c_int (count ht + 1);
        Some ((set_item ht index (Ptr item))\<lparr>count := c\<rparr>)
      }
      else if cur_item \<noteq> HT_DELETED_ITEM \<and> item_key (the_item cur_item) = key
      then do {
        _ \<leftarrow> ht_del_item cur_item;
        Some (set_item ht index (Ptr item))
      }
      else do {
        index' \<leftarrow> ht_get_hash (item_key item) (size_ht ht) i;
        cur_item' \<leftarrow> item_at ht index';
        i' \<leftarrow> c_int (i + 1);
        ht_insert_loop ht item key index' cur_item' i'
      })"

text \<open>
  \<^verbatim>\<open>ht_resize\<close> and \<^verbatim>\<open>ht_insert\<close> call each other. The resize is written over the
  insert function \<open>ins\<close> it calls, \<^verbatim>\<open>ht_insert\<close> is defined with it, and
  \<^verbatim>\<open>ht_resize\<close> is then the instance at \<^verbatim>\<open>ht_insert\<close>. The temporary table takes the
  old size and the old bucket array and is freed with \<^verbatim>\<open>ht_del_hash_table\<close>: when the old
  array holds a tombstone, that call frees \<^verbatim>\<open>HT_DELETED_ITEM\<close> and the resize has no defined
  result.
\<close>

definition ht_resize_with ::
  "(ht_hash_table \<Rightarrow> string \<Rightarrow> string \<Rightarrow> ht_hash_table option) \<Rightarrow>
   ht_hash_table \<Rightarrow> int \<Rightarrow> ht_hash_table option" where
  "ht_resize_with ins ht bs =
     (if bs < HT_INITIAL_BASE_SIZE then Some ht
      else do {
        new_ht \<leftarrow> ofold (\<lambda>i new_ht. do {
            item \<leftarrow> item_at ht (int i);
            if item \<noteq> NULL \<and> item \<noteq> HT_DELETED_ITEM
            then ins new_ht (item_key (the_item item)) (item_value (the_item item))
            else Some new_ht
          }) [0..<nat (size_ht ht)] (ht_new_sized bs);
        _ \<leftarrow> ht_del_hash_table (new_ht\<lparr>size_ht := size_ht ht, items := items ht\<rparr>);
        Some (ht\<lparr>base_size := base_size new_ht, count := count new_ht,
                 size_ht := size_ht new_ht, items := items new_ht\<rparr>)
      })"

lemma ht_resize_with_mono [partial_function_mono]:
  assumes "\<And>t k v. mono_option (\<lambda>f. B f t k v)"
  shows "mono_option (\<lambda>f. ht_resize_with (B f) ht bs)"
  unfolding ht_resize_with_def using assms by (auto intro!: partial_function_mono)

partial_function (option) ht_insert ::
  "ht_hash_table \<Rightarrow> string \<Rightarrow> string \<Rightarrow> ht_hash_table option" where
  "ht_insert ht key val = do {
     load \<leftarrow> ht_load ht;
     ht1 \<leftarrow> (if 70 < load then do {
               new_size \<leftarrow> c_int (base_size ht * 2);
               ht_resize_with ht_insert ht new_size
             } else Some ht);
     index \<leftarrow> ht_get_hash (item_key (ht_new_item key val)) (size_ht ht1) 0;
     cur_item \<leftarrow> item_at ht1 index;
     ht_insert_loop ht1 (ht_new_item key val) key index cur_item 1
   }"

definition ht_resize :: "ht_hash_table \<Rightarrow> int \<Rightarrow> ht_hash_table option" where
  "ht_resize = ht_resize_with ht_insert"

definition ht_resize_up :: "ht_hash_table \<Rightarrow> ht_hash_table option" where
  "ht_resize_up ht = do {
     new_size \<leftarrow> c_int (base_size ht * 2);
     ht_resize ht new_size
   }"

definition ht_resize_down :: "ht_hash_table \<Rightarrow> ht_hash_table option" where
  "ht_resize_down ht = do {
     new_size \<leftarrow> c_div (base_size ht) 2;
     ht_resize ht new_size
   }"

text \<open>
  \<^verbatim>\<open>ht_search\<close> returns the value found (\<open>None\<close> for the null pointer) together with
  the table it leaves behind.
\<close>

partial_function (option) ht_search_loop ::
  "ht_hash_table \<Rightarrow> string \<Rightarrow> bucket \<Rightarrow> int \<Rightarrow> (string option \<times> ht_hash_table) option" where
  "ht_search_loop ht key item i =
     (if item = NULL then Some (None, ht)
      else if item \<noteq> HT_DELETED_ITEM \<and> item_key (the_item item) = key
      then Some (Some (item_value (the_item item)), ht)
      else do {
        index \<leftarrow> ht_get_hash key (size_ht ht) i;
        item' \<leftarrow> item_at ht index;
        i' \<leftarrow> c_int (i + 1);
        ht_search_loop ht key item' i'
      })"

definition ht_search :: "ht_hash_table \<Rightarrow> string \<Rightarrow> (string option \<times> ht_hash_table) option" where
  "ht_search ht key = do {
     index \<leftarrow> ht_get_hash key (size_ht ht) 0;
     item \<leftarrow> item_at ht index;
     ht_search_loop ht key item 1
   }"

text \<open>The loop of \<^verbatim>\<open>ht_delete\<close> goes on after a match, up to the first null bucket.\<close>

partial_function (option) ht_delete_loop ::
  "ht_hash_table \<Rightarrow> string \<Rightarrow> int \<Rightarrow> bucket \<Rightarrow> int \<Rightarrow> ht_hash_table option" where
  "ht_delete_loop ht key index item i =
     (if item = NULL then Some ht
      else do {
        ht' \<leftarrow> (if item \<noteq> HT_DELETED_ITEM \<and> item_key (the_item item) = key
               then do {
                 _ \<leftarrow> ht_del_item item;
                 Some (set_item ht index HT_DELETED_ITEM)
               }
               else Some ht);
        index' \<leftarrow> ht_get_hash key (size_ht ht') i;
        item' \<leftarrow> item_at ht' index';
        i' \<leftarrow> c_int (i + 1);
        ht_delete_loop ht' key index' item' i'
      })"

definition ht_delete :: "ht_hash_table \<Rightarrow> string \<Rightarrow> ht_hash_table option" where
  "ht_delete ht key = do {
     load \<leftarrow> ht_load ht;
     ht1 \<leftarrow> (if load < 10 then ht_resize_down ht else Some ht);
     index \<leftarrow> ht_get_hash key (size_ht ht1) 0;
     item \<leftarrow> item_at ht1 index;
     ht2 \<leftarrow> ht_delete_loop ht1 key index item 1;
     c \<leftarrow> c_int (count ht2 - 1);
     Some (ht2\<lparr>count := c\<rparr>)
   }"

declare ht_insert_loop.simps [code]
declare ht_insert.simps [code]
declare ht_search_loop.simps [code]
declare ht_delete_loop.simps [code]

lemma ht_insert_unfold:
  "ht_insert ht key val = do {
     load \<leftarrow> ht_load ht;
     ht1 \<leftarrow> (if 70 < load then ht_resize_up ht else Some ht);
     index \<leftarrow> ht_get_hash (item_key (ht_new_item key val)) (size_ht ht1) 0;
     cur_item \<leftarrow> item_at ht1 index;
     ht_insert_loop ht1 (ht_new_item key val) key index cur_item 1
   }"
  by (subst ht_insert.simps) (simp add: ht_resize_up_def ht_resize_def cong: if_cong)

section \<open>Notions used to state the properties\<close>

text \<open>A bucket is live when it points to an item; it holds a key when that item has the key.\<close>

definition live :: "bucket \<Rightarrow> bool" where
  "live b = (b \<noteq> NULL \<and> b \<noteq> HT_DELETED_ITEM)"

definition holds :: "string \<Rightarrow> bucket \<Rightarrow> bool" where
  "holds key b = (b \<noteq> NULL \<and> b \<noteq> HT_DELETED_ITEM \<and> item_key (the_item b) = key)"

text \<open>The true number of live entries, against which \<open>count\<close> is compared.\<close>

definition live_count :: "ht_hash_table \<Rightarrow> int" where
  "live_count ht = int (length (filter live (items ht)))"

text \<open>The bucket read at attempt \<open>i\<close> of the probe sequence of \<open>key\<close>.\<close>

definition probe :: "ht_hash_table \<Rightarrow> string \<Rightarrow> int \<Rightarrow> bucket option" where
  "probe ht key i = Option.bind (ht_get_hash key (size_ht ht) i) (item_at ht)"

text \<open>A probe sequence is stuck when every attempt gives the same bucket.\<close>

definition stuck :: "string \<Rightarrow> int \<Rightarrow> int \<Rightarrow> bool" where
  "stuck key m index = (\<forall>i idx. 0 \<le> i \<longrightarrow> ht_get_hash key m i = Some idx \<longrightarrow> idx = index)"

text \<open>
  The outcome of the insert loop at bucket \<open>j\<close>: the item went into a null bucket and
  \<open>count\<close> grew by one, or it replaced the item of a bucket holding the key.
\<close>

definition placed :: "ht_hash_table \<Rightarrow> ht_item \<Rightarrow> string \<Rightarrow> int \<Rightarrow> ht_hash_table \<Rightarrow> bool" where
  "placed ht item key j ht' =
     ((item_at ht j = Some NULL \<and> ht' = (set_item ht j (Ptr item))\<lparr>count := count ht + 1\<rparr>)
      \<or> (\<exists>b. item_at ht j = Some b \<and> holds key b \<and> ht' = set_item ht j (Ptr item)))"

text \<open>All attempts before \<open>j\<close> of the probe sequence read a bucket that is not null.\<close>

definition probed :: "ht_hash_table \<Rightarrow> string \<Rightarrow> int \<Rightarrow> bool" where
  "probed ht key j = (\<forall>l. 0 \<le> l \<and> l < j \<longrightarrow> (\<exists>b. probe ht key l = Some b \<and> b \<noteq> NULL))"

text \<open>The sizing invariant: \<open>size\<close> is the prime chosen for \<open>base_size\<close>, never below the minimum.\<close>

definition size_inv :: "ht_hash_table \<Rightarrow> bool" where
  "size_inv ht = (HT_INITIAL_BASE_SIZE \<le> base_size ht \<and> size_ht ht = next_prime (base_size ht))"

text \<open>
  Attempt \<open>n\<close> of the probe sequence of \<open>k\<close> gives bucket \<open>j\<close>, and every earlier attempt
  read a bucket that is neither null nor holding \<open>k\<close>: the loops of the three operations
  get to bucket \<open>j\<close>.
\<close>

definition reach :: "ht_hash_table \<Rightarrow> string \<Rightarrow> int \<Rightarrow> int \<Rightarrow> bool" where
  "reach t k n j =
     (0 \<le> n \<and> n < INT_MAX \<and> ht_get_hash k (size_ht t) n = Some j
      \<and> (\<forall>l. 0 \<le> l \<and> l < n \<longrightarrow> (\<exists>b. probe t k l = Some b \<and> b \<noteq> NULL \<and> \<not> holds k b)))"

text \<open>
  The invariant of the bucket array: it has \<open>size\<close> buckets, and every live bucket is
  the one the probe sequence of its own key gets to.
\<close>

definition table_inv :: "ht_hash_table \<Rightarrow> bool" where
  "table_inv t =
     (length (items t) = nat (size_ht t)
      \<and> (\<forall>j b. item_at t j = Some b \<and> live b \<longrightarrow> (\<exists>n. reach t (item_key (the_item b)) n j)))"

text \<open>Some bucket holds the key \<open>k\<close> with the value \<open>v\<close>.\<close>

definition stored :: "ht_hash_table \<Rightarrow> string \<Rightarrow> string \<Rightarrow> bool" where
  "stored t k v = (\<exists>j b. item_at t j = Some b \<and> holds k b \<and> item_value (the_item b) = v)"

text \<open>The polynomial \<open>\<Sum> s\<^sub>i * a ^ (len - i - 1)\<close> over the character codes, as an integer.\<close>

fun poly_hash :: "string \<Rightarrow> int \<Rightarrow> int" where
  "poly_hash [] a = 0"
| "poly_hash (c # cs) a = c_char c * a ^ length cs + poly_hash cs a"

text \<open>
  A driver issues the operations of the interface one after the other on the table made
  by \<^verbatim>\<open>ht_new\<close>.
\<close>

datatype ht_op = Insert string string | Search string | Delete string

fun ht_step :: "ht_op \<Rightarrow> ht_hash_table \<Rightarrow> ht_hash_table option" where
  "ht_step (Insert k v) ht = ht_insert ht k v"
| "ht_step (Search k) ht = map_option snd (ht_search ht k)"
| "ht_step (Delete k) ht = ht_delete ht k"

definition ht_run :: "ht_op list \<Rightarrow> ht_hash_table option" where
  "ht_run ops = ofold ht_step ops ht_new"

text \<open>Thirty-nine one-character keys, enough to fill a fresh table beyond a load of 70.\<close>

definition keys39 :: "string list" where
  "keys39 = map (\<lambda>c. [c]) ''ABCDEFGHIJKLMNOPQRSTUVWXYZabcdefghjklmn''"

text \<open>
  The probe sequence of the key \<open>k\<close> in a table of \<open>m\<close> buckets is well defined and its
  step does not vanish: both hashes are defined and not negative, and \<open>hash_b + 1\<close> is
  below \<open>m\<close>.
\<close>

definition good_key :: "string \<Rightarrow> int \<Rightarrow> bool" where
  "good_key k m =
     (case ht_hash k HT_PRIME_1 m of None \<Rightarrow> False
      | Some ha \<Rightarrow> (case ht_hash k HT_PRIME_2 m of None \<Rightarrow> False
          | Some hb \<Rightarrow> 0 \<le> ha \<and> 0 \<le> hb \<and> hb + 1 < m))"

text \<open>A table without tombstones whose \<open>count\<close> is the number of its live entries.\<close>

definition plain :: "ht_hash_table \<Rightarrow> bool" where
  "plain t = (HT_DELETED_ITEM \<notin> set (items t) \<and> count t = live_count t)"

text \<open>The keys of the live entries are all in \<open>K\<close>.\<close>

definition keys_in :: "string set \<Rightarrow> ht_hash_table \<Rightarrow> bool" where
  "keys_in K t = (\<forall>b \<in> set (items t). live b \<longrightarrow> item_key (the_item b) \<in> K)"



section \<open>Basic facts\<close>

lemma set_item_fields [simp]:
  "size_ht (set_item ht i b) = size_ht ht"
  "base_size (set_item ht i b) = base_size ht"
  "count (set_item ht i b) = count ht"
  "items (set_item ht i b) = (items ht)[nat i := b]"
  by (simp_all add: set_item_def)

lemma ht_del_item_live [simp]:
  "b \<noteq> NULL \<Longrightarrow> b \<noteq> HT_DELETED_ITEM \<Longrightarrow> ht_del_item b = Some ()"
  by (cases b) (simp_all add: ht_del_item_def)

lemma ht_del_item_Some: "ht_del_item b = Some u \<longleftrightarrow> b \<noteq> NULL \<and> b \<noteq> HT_DELETED_ITEM"
  by (cases b) (simp_all add: ht_del_item_def)

lemma item_at_bounds:
  "item_at ht i = Some b \<Longrightarrow> 0 \<le> i \<and> nat i < length (items ht) \<and> items ht ! nat i = b"
  by (auto simp: item_at_def split: if_splits)

lemma item_at_eq:
  "items ht' = items ht \<Longrightarrow> item_at ht' i = item_at ht i"
  by (simp add: item_at_def)

lemma item_at_set_item:
  "item_at ht i = Some c \<Longrightarrow> item_at (set_item ht i b) j = (if j = i then Some b else item_at ht j)"
  by (auto simp: item_at_def split: if_splits)

lemma ofold_append: "ofold f (xs @ ys) s = Option.bind (ofold f xs s) (ofold f ys)"
  by (induction xs arbitrary: s) (auto split: Option.bind_splits)

lemma ofold_single: "ofold f [x] = f x"
proof (rule ext)
  fix s
  have "ofold f [] = Some" by (rule ext) simp
  then show "ofold f [x] s = f x s" by simp
qed

lemma ht_run_snoc: "ht_run (ops @ [x]) = Option.bind (ht_run ops) (ht_step x)"
  by (simp add: ht_run_def ofold_append ofold_single)

lemma ht_resize_noop: "bs < HT_INITIAL_BASE_SIZE \<Longrightarrow> ht_resize ht bs = Some ht"
  by (simp add: ht_resize_def ht_resize_with_def)

lemma c_div_2_small: "c_div b 2 = Some q \<Longrightarrow> b < 100 \<Longrightarrow> q < 50"
  by (cases "b < 0") (auto simp: c_div_def sgn_if split: if_splits)

lemma ht_resize_down_small:
  "base_size ht < 100 \<Longrightarrow> ht_resize_down ht = Some ht"
proof -
  assume b: "base_size ht < 100"
  obtain q where q: "c_div (base_size ht) 2 = Some q" by (simp add: c_div_def)
  with b have "q < HT_INITIAL_BASE_SIZE" by (simp add: c_div_2_small HT_INITIAL_BASE_SIZE_def)
  then show ?thesis by (simp add: ht_resize_down_def q ht_resize_noop)
qed

section \<open>Search leaves the table as it was\<close>

lemma ht_search_loop_frame:
  assumes "ht_search_loop ht key item i = Some r"
  shows "snd r = ht"
  using assms
proof (rule ht_search_loop.raw_induct [where P = "\<lambda>ht key item i r. snd r = ht", rotated], goal_cases)
  case (1 srch ht key item i r)
  from 1(2) show ?case
    by (auto split: if_splits Option.bind_splits dest: 1(1))
qed

lemma ht_search_same: "ht_search ht key = Some r \<Longrightarrow> snd r = ht"
  by (auto simp: ht_search_def split: Option.bind_splits dest: ht_search_loop_frame)

text \<open>
  C10. \<^verbatim>\<open>ht_search\<close> writes nothing: whenever it returns, the table it leaves behind
  is the table it was given, field by field (\<open>base_size\<close>, \<open>size\<close>, \<open>count\<close> and every
  bucket).
\<close>

theorem ht_search_frame:
  "ht_search ht key = Some (r, ht') \<Longrightarrow> ht' = ht"
  by (auto dest: ht_search_same)

theorem ht_search_frame_witness:
  "ht_search (ht_new\<lparr>count := 1, items := (items ht_new)[29 := Ptr (Item ''dog'' ''canine'')]\<rparr>) ''dog''
     = Some (Some ''canine'', ht_new\<lparr>count := 1, items := (items ht_new)[29 := Ptr (Item ''dog'' ''canine'')]\<rparr>)"
proof -
  let ?t = "ht_new\<lparr>count := 1, items := (items ht_new)[29 := Ptr (Item ''dog'' ''canine'')]\<rparr>"
  have e: "ht_search ?t ''dog'' = Some (Some ''canine'', ?t)"
    by code_simp
  from ht_search_frame [OF e] e show ?thesis by simp
qed

section \<open>The probe step can vanish modulo the table size\<close>

text \<open>
  C6. The step of the probe sequence is \<open>hash_b + 1\<close> with \<open>0 \<le> hash_b < m\<close>, so it is
  a multiple of \<open>m\<close> when \<open>hash_b = m - 1\<close>. For the key \<^verbatim>\<open>"4"\<close> (character code 52) in
  a table of 53 buckets, \<open>hash_b = 52\<close>: the step is 53, and attempts 0, 1 and 2 all
  give bucket 52.
\<close>

theorem ht_get_hash_step_zero:
  "ht_hash ''4'' HT_PRIME_2 53 = Some 52
   \<and> (52 + 1) mod 53 = (0::int)
   \<and> ht_get_hash ''4'' 53 0 = Some 52
   \<and> ht_get_hash ''4'' 53 1 = Some 52
   \<and> ht_get_hash ''4'' 53 2 = Some 52"
  by code_simp

text \<open>
  The defect is exactly this case: for a prime size \<open>m\<close> (small enough for
  \<^verbatim>\<open>attempt * step\<close> not to overflow) and \<open>hash_b < m - 1\<close>, the step is coprime to
  \<open>m\<close> and the attempts \<open>0 .. m - 1\<close> give pairwise distinct buckets.
\<close>

lemma prime_nat_coprime:
  assumes "prime_nat p" "0 < k" "k < p"
  shows "coprime p k"
proof -
  let ?g = "gcd p k"
  have g: "?g dvd p" "?g dvd k" by simp_all
  from g(2) assms(2) have "?g \<le> k" by (rule dvd_imp_le)
  with assms(3) have lt: "?g < p" by simp
  have pos: "0 < ?g" using assms(2) by simp
  have "?g = 1"
  proof (rule ccontr)
    assume "?g \<noteq> 1"
    with pos have "2 \<le> ?g" by arith
    with lt have "?g \<in> {2..<p}" by simp
    with assms(1) g(1) show False by (auto simp: prime_nat_def)
  qed
  then show ?thesis by (simp add: coprime_iff_gcd_eq_1)
qed

lemma ht_get_hash_value:
  assumes "0 < m" "m * m \<le> INT_MAX"
    and "ht_hash s HT_PRIME_1 m = Some ha" "ht_hash s HT_PRIME_2 m = Some hb"
    and "0 \<le> ha" "ha < m" "0 \<le> hb" "hb < m" "0 \<le> i" "i < m"
  shows "ht_get_hash s m i = Some ((ha + i * (hb + 1)) mod m)"
proof -
  have m: "m \<le> INT_MAX"
  proof -
    have "m * 1 \<le> m * m" using assms(1) by (intro mult_left_mono) simp_all
    with assms(2) show ?thesis by simp
  qed
  have 1: "c_int (hb + 1) = Some (hb + 1)"
    using assms(7,8) m by (simp add: c_int_def INT_MIN_def)
  have p0: "0 \<le> i * (hb + 1)" using assms(7,9) by simp
  have "i * (hb + 1) \<le> (m - 1) * m" using assms(7-10) by (intro mult_mono) simp_all
  then have p1: "ha + i * (hb + 1) < m * m" using assms(6) by (simp add: algebra_simps)
  from p0 p1 assms(2,5) have 2: "c_int (i * (hb + 1)) = Some (i * (hb + 1))"
    by (simp add: c_int_def INT_MIN_def)
  from p0 p1 assms(2,5) have 3: "c_int (ha + i * (hb + 1)) = Some (ha + i * (hb + 1))"
    by (simp add: c_int_def INT_MIN_def)
  from p0 assms(1,5) have 4: "c_mod (ha + i * (hb + 1)) m = Some ((ha + i * (hb + 1)) mod m)"
    by (simp add: c_mod_def sgn_if)
  show ?thesis by (simp add: ht_get_hash_def assms(3,4) 1 2 3 4)
qed

lemma ht_get_hash_distinct:
  assumes "is_prime m" "m * m \<le> INT_MAX"
    and "ht_hash s HT_PRIME_1 m = Some ha" "ht_hash s HT_PRIME_2 m = Some hb"
    and "0 \<le> ha" "ha < m" "0 \<le> hb" "hb < m - 1"
    and "0 \<le> i" "i < m" "0 \<le> j" "j < m"
    and "ht_get_hash s m i = ht_get_hash s m j"
  shows "i = j"
proof -
  from assms(1) have m: "0 < m" by (simp add: is_prime_def prime_nat_def)
  from assms(8) have hb: "hb < m" by simp
  from assms(13) have "(ha + i * (hb + 1)) mod m = (ha + j * (hb + 1)) mod m"
    by (simp add: ht_get_hash_value [OF m assms(2-7) hb] assms(9-12))
  then have "m dvd (ha + i * (hb + 1)) - (ha + j * (hb + 1))" by (simp add: mod_eq_dvd_iff)
  then have d: "m dvd (i - j) * (hb + 1)" by (simp add: algebra_simps)
  have "coprime (nat m) (nat (hb + 1))"
    using assms(1,7,8) by (intro prime_nat_coprime) (simp_all add: is_prime_def)
  then have "coprime m (hb + 1)"
    using m assms(7) by (metis coprime_int_iff int_nat_eq add_nonneg_nonneg zero_le_one less_imp_le)
  with d have "m dvd i - j" by (simp add: coprime_dvd_mult_left_iff)
  moreover have "\<bar>i - j\<bar> < m" using assms(9-12) by simp
  ultimately show ?thesis
    using zdvd_not_zless [of "\<bar>i - j\<bar>" m] by (cases "i = j") simp_all
qed

section \<open>The hash of a long string is not the polynomial\<close>

text \<open>
  C8. For a string of ten characters the first term needs \<open>131 ^ 9\<close>, which is beyond
  the range of \<^verbatim>\<open>long\<close>: the conversion \<^verbatim>\<open>(long)pow(a, 9)\<close> is undefined and
  \<^verbatim>\<open>ht_hash\<close> has no defined result, while the polynomial is 1 modulo 53. For a
  string of nine characters \<open>131 ^ 8\<close> is not a \<^verbatim>\<open>double\<close>: \<^verbatim>\<open>pow\<close> returns its
  neighbour and the hash (47) is not the polynomial modulo 53 (27).
\<close>

theorem ht_hash_not_polynomial:
  "ht_hash ''aaaaaaaaaa'' HT_PRIME_1 53 = None
   \<and> poly_hash ''aaaaaaaaaa'' HT_PRIME_1 mod 53 = 1
   \<and> ht_hash ''!aaaaaaaa'' HT_PRIME_1 53 = Some 47
   \<and> poly_hash ''!aaaaaaaa'' HT_PRIME_1 mod 53 = 27"
  by code_simp

text \<open>
  The hash is the polynomial as long as the largest power stays below \<open>2 ^ 53\<close>
  (for the bases 131 and 151: strings of up to eight characters), for characters
  with codes below 128.
\<close>

lemma bitlen_le: "0 \<le> x \<Longrightarrow> x < 2 ^ n \<Longrightarrow> bitlen x \<le> n"
proof (induction n arbitrary: x)
  case 0
  then have "x = 0" by simp
  then show ?case by (simp add: bitlen.simps)
next
  case (Suc n)
  show ?case
  proof (cases "x \<le> 0")
    case True
    then show ?thesis by (simp add: bitlen.simps)
  next
    case False
    with Suc.prems have "0 \<le> x div 2" "x div 2 < 2 ^ n" by auto
    then have "bitlen (x div 2) \<le> n" by (rule Suc.IH)
    with False show ?thesis by (subst bitlen.simps) simp
  qed
qed

lemma round_double_exact: "0 \<le> x \<Longrightarrow> x < 2 ^ 53 \<Longrightarrow> round_double x = x"
  using bitlen_le [of x 53] by (simp add: round_double_def Let_def sgn_if)

lemma of_char_int_less: "of_char c < (256 :: int)"
proof -
  have "(of_char c :: int) = int (of_char c)" by (simp add: of_nat_of_char)
  moreover have "of_char c < (256 :: nat)" by simp
  ultimately show ?thesis by linarith
qed

lemma c_char_less: "c_char c < 128"
  using of_char_int_less [of c] by (simp add: c_char_def Let_def)

lemma ht_hash_loop_exact:
  assumes "0 < m" "m \<le> INT_MAX" "0 \<le> a" "\<forall>c \<in> set s. 0 \<le> c_char c"
    and "a ^ (length s - 1) < 2 ^ 53" "0 \<le> h" "h < m"
  shows "ht_hash_loop s a m h = Some ((h + poly_hash s a) mod m)"
  using assms(4-)
proof (induction s arbitrary: h)
  case Nil
  then show ?case by simp
next
  case (Cons c cs)
  have c: "0 \<le> c_char c" "c_char c < 128"
    using Cons.prems(1) c_char_less by simp_all
  have p: "0 \<le> a ^ length cs" "a ^ length cs < 2 ^ 53"
    using assms(3) Cons.prems(2) by simp_all
  then have pw: "pow_long a (length cs) = Some (a ^ length cs)"
    by (simp add: pow_long_def round_double_exact c_long_def LONG_MIN_def LONG_MAX_def)
  have t0: "0 \<le> a ^ length cs * c_char c" using p c by simp
  have "a ^ length cs * c_char c \<le> 2 ^ 53 * 128"
    using p c by (intro mult_mono) simp_all
  then have t1: "a ^ length cs * c_char c \<le> 1152921504606846976" by simp
  from t0 t1 have t: "c_long (a ^ length cs * c_char c) = Some (a ^ length cs * c_char c)"
    by (simp add: c_long_def LONG_MIN_def LONG_MAX_def)
  from t0 t1 Cons.prems(3,4) assms(2)
  have hs: "c_long (h + a ^ length cs * c_char c) = Some (h + a ^ length cs * c_char c)"
    by (simp add: c_long_def LONG_MIN_def LONG_MAX_def INT_MAX_def)
  from t0 Cons.prems(3) assms(1)
  have md: "c_mod (h + a ^ length cs * c_char c) m = Some ((h + a ^ length cs * c_char c) mod m)"
    by (simp add: c_mod_def sgn_if)
  have "a ^ (length cs - 1) \<le> a ^ length cs \<or> a = 0"
    using assms(3) by (cases "a = 0") (auto intro!: power_increasing)
  with p(2) have small: "a ^ (length cs - 1) < 2 ^ 53"
    by (cases "a = 0") (auto simp: power_0_left)
  have rec: "ht_hash_loop cs a m ((h + a ^ length cs * c_char c) mod m)
          = Some (((h + a ^ length cs * c_char c) mod m + poly_hash cs a) mod m)"
    using Cons.prems(1) small assms(1) by (intro Cons.IH) simp_all
  have "ht_hash_loop (c # cs) a m h = ht_hash_loop cs a m ((h + a ^ length cs * c_char c) mod m)"
    by (simp add: pw t hs md)
  also note rec
  also have "((h + a ^ length cs * c_char c) mod m + poly_hash cs a) mod m
               = (h + poly_hash (c # cs) a) mod m"
  proof -
    have "((h + a ^ length cs * c_char c) mod m + poly_hash cs a) mod m
            = (h + a ^ length cs * c_char c + poly_hash cs a) mod m"
      by (rule mod_add_left_eq)
    also have "h + a ^ length cs * c_char c + poly_hash cs a = h + poly_hash (c # cs) a"
      by (simp add: algebra_simps)
    finally show ?thesis .
  qed
  finally show ?case .
qed

lemma ht_hash_exact:
  assumes "0 < m" "m \<le> INT_MAX" "0 \<le> a" "\<forall>c \<in> set s. 0 \<le> c_char c"
    and "a ^ (length s - 1) < 2 ^ 53"
  shows "ht_hash s a m = Some (poly_hash s a mod m)"
  using ht_hash_loop_exact [OF assms, of 0] assms(1) by (simp add: ht_hash_def)

section \<open>Deleting\<close>

lemma ht_delete_loop_fields:
  assumes "ht_delete_loop ht key index item i = Some ht'"
  shows "count ht' = count ht \<and> size_ht ht' = size_ht ht \<and> base_size ht' = base_size ht
         \<and> length (items ht') = length (items ht)"
  using assms
proof (rule ht_delete_loop.raw_induct [where P = "\<lambda>ht key index item i ht'.
    count ht' = count ht \<and> size_ht ht' = size_ht ht \<and> base_size ht' = base_size ht
         \<and> length (items ht') = length (items ht)", rotated], goal_cases)
  case (1 del ht key index item i ht')
  from 1(2) show ?case
    by (auto split: if_splits Option.bind_splits dest!: 1(1))
qed

text \<open>
  Whenever \<^verbatim>\<open>ht_delete\<close> returns, a search for the key reports that it is absent:
  the loop turned every bucket holding the key into a tombstone, up to the null bucket
  where the search stops as well.
\<close>

lemma ht_delete_loop_result:
  assumes "ht_delete_loop ht key index item i = Some ht'" "item_at ht index = Some item"
  shows "size_ht ht' = size_ht ht \<and> length (items ht') = length (items ht)
         \<and> (\<forall>j < length (items ht). items ht' ! j = items ht ! j
                \<or> (holds key (items ht ! j) \<and> items ht' ! j = HT_DELETED_ITEM))
         \<and> (\<forall>hf. items hf = items ht' \<and> size_ht hf = size_ht ht' \<longrightarrow>
                ht_search_loop hf key (items ht' ! nat index) i = Some (None, hf))"
proof -
  have "item_at ht index = Some item \<longrightarrow>
         size_ht ht' = size_ht ht \<and> length (items ht') = length (items ht)
         \<and> (\<forall>j < length (items ht). items ht' ! j = items ht ! j
                \<or> (holds key (items ht ! j) \<and> items ht' ! j = HT_DELETED_ITEM))
         \<and> (\<forall>hf. items hf = items ht' \<and> size_ht hf = size_ht ht' \<longrightarrow>
                ht_search_loop hf key (items ht' ! nat index) i = Some (None, hf))"
    using assms(1)
  proof (rule ht_delete_loop.raw_induct [where P = "\<lambda>ht key index item i ht'.
      item_at ht index = Some item \<longrightarrow>
         size_ht ht' = size_ht ht \<and> length (items ht') = length (items ht)
         \<and> (\<forall>j < length (items ht). items ht' ! j = items ht ! j
                \<or> (holds key (items ht ! j) \<and> items ht' ! j = HT_DELETED_ITEM))
         \<and> (\<forall>hf. items hf = items ht' \<and> size_ht hf = size_ht ht' \<longrightarrow>
                ht_search_loop hf key (items ht' ! nat index) i = Some (None, hf))", rotated], goal_cases)
    case (1 del ht key index item i ht')
    show ?case
    proof (intro impI)
      assume a: "item_at ht index = Some item"
      note b = item_at_bounds [OF a]
      show "size_ht ht' = size_ht ht \<and> length (items ht') = length (items ht)
         \<and> (\<forall>j < length (items ht). items ht' ! j = items ht ! j
                \<or> (holds key (items ht ! j) \<and> items ht' ! j = HT_DELETED_ITEM))
         \<and> (\<forall>hf. items hf = items ht' \<and> size_ht hf = size_ht ht' \<longrightarrow>
                ht_search_loop hf key (items ht' ! nat index) i = Some (None, hf))"
      proof (cases "item = NULL")
        case True
        with 1(2) have "ht' = ht" by simp
        with True b show ?thesis
          by (auto intro: ht_search_loop.simps [THEN trans])
      next
        case False
        define ht1 where "ht1 = (if item \<noteq> HT_DELETED_ITEM \<and> item_key (the_item item) = key
                     then set_item ht index HT_DELETED_ITEM else ht)"
        from 1(2) False obtain index' item' i' where
          g: "ht_get_hash key (size_ht ht1) i = Some index'"
          and it: "item_at ht1 index' = Some item'"
          and i': "c_int (i + 1) = Some i'"
          and rec: "del ht1 key index' item' i' = Some ht'"
          unfolding ht1_def
          by (cases "item = HT_DELETED_ITEM"; cases "item_key (the_item item) = key")
            (auto split: Option.bind_splits)
        from 1(1) [OF rec] it have
          sz: "size_ht ht' = size_ht ht1" and len: "length (items ht') = length (items ht1)"
          and mono: "\<forall>j < length (items ht1). items ht' ! j = items ht1 ! j
                \<or> (holds key (items ht1 ! j) \<and> items ht' ! j = HT_DELETED_ITEM)"
          and srch: "\<forall>hf. items hf = items ht' \<and> size_ht hf = size_ht ht' \<longrightarrow>
                ht_search_loop hf key (items ht' ! nat index') i' = Some (None, hf)"
          by blast+
        have sz1: "size_ht ht1 = size_ht ht" and len1: "length (items ht1) = length (items ht)"
          by (simp_all add: ht1_def)
        have step1: "items ht1 ! j = items ht ! j
                \<or> (holds key (items ht ! j) \<and> items ht1 ! j = HT_DELETED_ITEM)"
          if "j < length (items ht)" for j
          using that b False by (cases "j = nat index") (auto simp: ht1_def holds_def)
        have nh_del: "\<not> holds key HT_DELETED_ITEM" by (simp add: holds_def)
        have mono': "items ht' ! j = items ht ! j
                \<or> (holds key (items ht ! j) \<and> items ht' ! j = HT_DELETED_ITEM)"
          if "j < length (items ht)" for j
          using that mono step1 [OF that] len1 nh_del by metis
        have at1: "items ht1 ! nat index \<noteq> NULL \<and> \<not> holds key (items ht1 ! nat index)"
          using b False by (auto simp: ht1_def holds_def)
        from mono b len1 at1 have at': "items ht' ! nat index = items ht1 ! nat index"
          by metis
        have s: "ht_search_loop hf key (items ht' ! nat index) i = Some (None, hf)"
          if hf: "items hf = items ht' \<and> size_ht hf = size_ht ht'" for hf
        proof -
          from it have "item_at hf index' = Some (items ht' ! nat index')"
            using hf len by (auto simp: item_at_def split: if_splits)
          moreover from srch hf have "ht_search_loop hf key (items ht' ! nat index') i' = Some (None, hf)"
            by blast
          ultimately show ?thesis
            using at1 at' g i' hf sz
            by (subst ht_search_loop.simps) (auto simp: holds_def)
        qed
        from sz sz1 len len1 mono' s show ?thesis by auto
      qed
    qed
  qed
  with assms show ?thesis by blast
qed

lemma ht_search_after_delete:
  assumes "ht_delete ht key = Some ht'"
  shows "ht_search ht' key = Some (None, ht')"
proof -
  from assms obtain ht1 index item ht2 c where
    g: "ht_get_hash key (size_ht ht1) 0 = Some index"
    and it: "item_at ht1 index = Some item"
    and d: "ht_delete_loop ht1 key index item 1 = Some ht2"
    and h: "ht' = ht2\<lparr>count := c\<rparr>"
    unfolding ht_delete_def by (auto split: Option.bind_splits)
  from ht_delete_loop_result [OF d it] have
    sz: "size_ht ht2 = size_ht ht1" and len: "length (items ht2) = length (items ht1)"
    and s: "ht_search_loop ht' key (items ht2 ! nat index) 1 = Some (None, ht')"
    using h by auto
  from it len h have "item_at ht' index = Some (items ht2 ! nat index)"
    by (auto simp: item_at_def split: if_splits)
  with g sz s h show ?thesis by (simp add: ht_search_def)
qed

section \<open>A probe sequence that finds no exit\<close>

text \<open>
  When every attempt of a probe sequence gives the same bucket and that bucket is taken,
  the loops of \<^verbatim>\<open>ht_insert\<close> and \<^verbatim>\<open>ht_delete\<close> go on until the index computation
  \<^verbatim>\<open>attempt * (hash_b + 1)\<close> overflows \<^verbatim>\<open>int\<close>: the call has no defined result.
\<close>

lemma ht_delete_loop_stuck:
  assumes "stuck key (size_ht ht) index" "item_at ht index = Some item" "item \<noteq> NULL" "0 \<le> i"
  shows "ht_delete_loop ht key index item i = None"
proof (rule ccontr)
  assume "ht_delete_loop ht key index item i \<noteq> None"
  then obtain ht' where "ht_delete_loop ht key index item i = Some ht'" by auto
  then have "\<not> (stuck key (size_ht ht) index \<and> item_at ht index = Some item \<and> item \<noteq> NULL \<and> 0 \<le> i)"
  proof (rule ht_delete_loop.raw_induct [where P = "\<lambda>ht key index item i ht'.
      \<not> (stuck key (size_ht ht) index \<and> item_at ht index = Some item \<and> item \<noteq> NULL \<and> 0 \<le> i)",
      rotated], goal_cases)
    case (1 del ht key index item i ht')
    show ?case
    proof
      assume a: "stuck key (size_ht ht) index \<and> item_at ht index = Some item \<and> item \<noteq> NULL \<and> 0 \<le> i"
      define ht1 where "ht1 = (if item \<noteq> HT_DELETED_ITEM \<and> item_key (the_item item) = key
                     then set_item ht index HT_DELETED_ITEM else ht)"
      from 1(2) a obtain index' item' i' where
        g: "ht_get_hash key (size_ht ht1) i = Some index'"
        and it: "item_at ht1 index' = Some item'"
        and i': "c_int (i + 1) = Some i'"
        and rec: "del ht1 key index' item' i' = Some ht'"
        unfolding ht1_def
          by (cases "item = HT_DELETED_ITEM"; cases "item_key (the_item item) = key")
            (auto split: Option.bind_splits)
      have sz: "size_ht ht1 = size_ht ht" by (simp add: ht1_def)
      from a g sz have idx: "index' = index" by (auto simp: stuck_def)
      from a have "item_at ht1 index = Some (if item \<noteq> HT_DELETED_ITEM \<and> item_key (the_item item) = key
                     then HT_DELETED_ITEM else item)"
        by (auto simp: ht1_def item_at_set_item)
      with it idx a have "item' \<noteq> NULL" by (auto split: if_splits)
      moreover from i' a have "0 \<le> i'" by (auto simp: c_int_def split: if_splits)
      ultimately show False using 1(1) [OF rec] a sz idx it by simp
    qed
  qed
  with assms show False by simp
qed

lemma ht_insert_loop_stuck:
  assumes "stuck (item_key item) (size_ht ht) index" "item_at ht index = Some cur" "cur \<noteq> NULL"
    "\<not> holds key cur" "0 \<le> i"
  shows "ht_insert_loop ht item key index cur i = None"
proof (rule ccontr)
  assume "ht_insert_loop ht item key index cur i \<noteq> None"
  then obtain ht' where "ht_insert_loop ht item key index cur i = Some ht'" by auto
  then have "\<not> (stuck (item_key item) (size_ht ht) index \<and> item_at ht index = Some cur \<and> cur \<noteq> NULL
      \<and> \<not> holds key cur \<and> 0 \<le> i)"
  proof (rule ht_insert_loop.raw_induct [where P = "\<lambda>ht item key index cur i ht'.
      \<not> (stuck (item_key item) (size_ht ht) index \<and> item_at ht index = Some cur \<and> cur \<noteq> NULL
      \<and> \<not> holds key cur \<and> 0 \<le> i)", rotated], goal_cases)
    case (1 ins ht item key index cur i ht')
    show ?case
    proof
      assume a: "stuck (item_key item) (size_ht ht) index \<and> item_at ht index = Some cur \<and> cur \<noteq> NULL
      \<and> \<not> holds key cur \<and> 0 \<le> i"
      from 1(2) a obtain index' cur' i' where
        g: "ht_get_hash (item_key item) (size_ht ht) i = Some index'"
        and it: "item_at ht index' = Some cur'"
        and i': "c_int (i + 1) = Some i'"
        and rec: "ins ht item key index' cur' i' = Some ht'"
        by (auto simp: holds_def split: Option.bind_splits if_splits)
      from a g have idx: "index' = index" by (auto simp: stuck_def)
      from i' a have "0 \<le> i'" by (auto simp: c_int_def split: if_splits)
      then show False using 1(1) [OF rec] a idx it by simp
    qed
  qed
  with assms show False by simp
qed

text \<open>
  In a table of 53 buckets the keys \<^verbatim>\<open>"4"\<close> (code 52) and \<^verbatim>\<open>"i"\<close> (code 105) both have
  \<open>hash_a = hash_b = 52\<close>: the step is 53 and every attempt gives bucket 52.
\<close>

lemma stuck_4: "stuck ''4'' 53 52"
proof -
  have a: "ht_hash ''4'' HT_PRIME_1 53 = Some 52" by code_simp
  have b: "ht_hash ''4'' HT_PRIME_2 53 = Some 52" by code_simp
  show ?thesis
    unfolding stuck_def ht_get_hash_def a b
    by (auto simp: c_int_def c_mod_def sgn_if split: if_splits Option.bind_splits)
qed

lemma stuck_i: "stuck ''i'' 53 52"
proof -
  have a: "ht_hash ''i'' HT_PRIME_1 53 = Some 52" by code_simp
  have b: "ht_hash ''i'' HT_PRIME_2 53 = Some 52" by code_simp
  show ?thesis
    unfolding stuck_def ht_get_hash_def a b
    by (auto simp: c_int_def c_mod_def sgn_if split: if_splits Option.bind_splits)
qed

text \<open>
  For the key \<^verbatim>\<open>"i"\<close> in a table of 53 buckets the step is 53: attempts 0 to 40518558
  give bucket 52, and at attempt 40518559 the product \<^verbatim>\<open>attempt * 53\<close>, added to 52, is
  beyond \<^verbatim>\<open>INT_MAX\<close>.
\<close>

lemma ht_get_hash_overflow:
  "ht_get_hash ''i'' 53 0 = Some 52 \<and> ht_get_hash ''i'' 53 40518558 = Some 52
   \<and> ht_get_hash ''i'' 53 40518559 = None"
  by code_simp

text \<open>
  So, with \<^verbatim>\<open>"4"\<close> in bucket 52 of the fresh table, the insert of \<^verbatim>\<open>"i"\<close> and the delete
  of \<^verbatim>\<open>"4"\<close> have no defined result: their loops read bucket 52, which is taken, until the
  overflow.
\<close>

lemma ht_insert_stuck:
  "ht_insert ht_new ''4'' ''x'' = Some (ht_new\<lparr>count := 1, items := (items ht_new)[52 := Ptr (Item ''4'' ''x'')]\<rparr>)
   \<and> ht_insert (ht_new\<lparr>count := 1, items := (items ht_new)[52 := Ptr (Item ''4'' ''x'')]\<rparr>) ''i'' ''y'' = None"
proof -
  define t where "t = ht_new\<lparr>count := 1, items := (items ht_new)[52 := Ptr (Item ''4'' ''x'')]\<rparr>"
  have 1: "ht_insert ht_new ''4'' ''x'' = Some t" unfolding t_def by code_simp
  have l: "ht_load t = Some 1" unfolding t_def by code_simp
  have sz: "size_ht t = 53" unfolding t_def by code_simp
  have g: "ht_get_hash ''i'' 53 0 = Some 52" by code_simp
  have it: "item_at t 52 = Some (Ptr (Item ''4'' ''x''))" unfolding t_def by code_simp
  have "ht_insert_loop t (Item ''i'' ''y'') ''i'' 52 (Ptr (Item ''4'' ''x'')) 1 = None"
    by (rule ht_insert_loop_stuck) (simp_all add: sz stuck_i it holds_def)
  then have 2: "ht_insert t ''i'' ''y'' = None"
    by (subst ht_insert_unfold) (simp add: l sz g it ht_new_item_def)
  from 1 2 show ?thesis unfolding t_def by simp
qed

lemma ht_delete_stuck:
  "ht_delete (ht_new\<lparr>count := 1, items := (items ht_new)[52 := Ptr (Item ''4'' ''x'')]\<rparr>) ''4'' = None"
proof -
  define t where "t = ht_new\<lparr>count := 1, items := (items ht_new)[52 := Ptr (Item ''4'' ''x'')]\<rparr>"
  have l: "ht_load t = Some 1" unfolding t_def by code_simp
  have b: "base_size t < 100" unfolding t_def by code_simp
  have sz: "size_ht t = 53" unfolding t_def by code_simp
  have g: "ht_get_hash ''4'' 53 0 = Some 52" by code_simp
  have it: "item_at t 52 = Some (Ptr (Item ''4'' ''x''))" unfolding t_def by code_simp
  have "ht_delete_loop t ''4'' 52 (Ptr (Item ''4'' ''x'')) 1 = None"
    by (rule ht_delete_loop_stuck) (simp_all add: sz stuck_4 it)
  then have "ht_delete t ''4'' = None"
    unfolding ht_delete_def by (simp add: l ht_resize_down_small [OF b] sz g it)
  then show ?thesis unfolding t_def by simp
qed

section \<open>The insert loop\<close>

lemma c_int_Some: "c_int x = Some y \<Longrightarrow> y = x"
  by (simp add: c_int_def split: if_splits)

lemma placed_fields:
  assumes "placed ht item key j ht'"
  shows "size_ht ht' = size_ht ht" "base_size ht' = base_size ht"
    "length (items ht') = length (items ht)" "0 \<le> j" "nat j < length (items ht)"
    "items ht' = (items ht)[nat j := Ptr item]"
  using assms by (auto simp: placed_def dest: item_at_bounds)

lemma placed_other:
  assumes "placed ht item key j ht'" "item_at ht index = Some cur" "cur \<noteq> NULL" "\<not> holds key cur"
  shows "item_at ht' index = Some cur"
proof -
  from assms have "j \<noteq> index" by (auto simp: placed_def)
  moreover from assms(1) have "0 \<le> j" by (rule placed_fields)
  moreover from assms(2) have "0 \<le> index" by (auto dest: item_at_bounds)
  ultimately have "nat j \<noteq> nat index" by simp
  with assms(2) show ?thesis
    by (simp add: item_at_def placed_fields(6) [OF assms(1)] split: if_splits)
qed

lemma placed_at:
  assumes "placed ht item key j ht'"
  shows "item_at ht' j = Some (Ptr item)"
  using assms by (auto simp: placed_def item_at_set_item item_at_def split: if_splits)

lemma ht_insert_loop_result:
  assumes "ht_insert_loop ht item key index cur i = Some ht'" "item_at ht index = Some cur"
    "item_key item = key"
  shows "(\<exists>j. placed ht item key j ht')
         \<and> (\<exists>b. item_at ht' index = Some b
              \<and> ht_search_loop ht' key b i = Some (Some (item_value item), ht'))"
proof -
  have "item_at ht index = Some cur \<and> item_key item = key \<longrightarrow>
     (\<exists>j. placed ht item key j ht')
         \<and> (\<exists>b. item_at ht' index = Some b
              \<and> ht_search_loop ht' key b i = Some (Some (item_value item), ht'))"
    using assms(1)
  proof (rule ht_insert_loop.raw_induct [where P = "\<lambda>ht item key index cur i ht'.
      item_at ht index = Some cur \<and> item_key item = key \<longrightarrow>
     (\<exists>j. placed ht item key j ht')
         \<and> (\<exists>b. item_at ht' index = Some b
              \<and> ht_search_loop ht' key b i = Some (Some (item_value item), ht'))", rotated], goal_cases)
    case (1 ins ht item key index cur i ht')
    show ?case
    proof (intro impI)
      assume a: "item_at ht index = Some cur \<and> item_key item = key"
      consider (null) "cur = NULL" | (hit) "cur \<noteq> NULL" "holds key cur" | (miss) "cur \<noteq> NULL" "\<not> holds key cur"
        by blast
      then show "(\<exists>j. placed ht item key j ht')
         \<and> (\<exists>b. item_at ht' index = Some b
              \<and> ht_search_loop ht' key b i = Some (Some (item_value item), ht'))"
      proof cases
        case null
        with 1(2) have h: "ht' = (set_item ht index (Ptr item))\<lparr>count := count ht + 1\<rparr>"
          by (auto split: Option.bind_splits dest: c_int_Some)
        with a null have p: "placed ht item key index ht'" by (simp add: placed_def)
        from placed_at [OF p] a show ?thesis
          using p by (subst ht_search_loop.simps) auto
      next
        case hit
        with 1(2) have h: "ht' = set_item ht index (Ptr item)"
          by (auto simp: holds_def split: Option.bind_splits)
        with a hit have p: "placed ht item key index ht'" by (auto simp: placed_def)
        from placed_at [OF p] a show ?thesis
          using p by (subst ht_search_loop.simps) auto
      next
        case miss
        with 1(2) obtain index' cur' i' where
          g: "ht_get_hash (item_key item) (size_ht ht) i = Some index'"
          and it: "item_at ht index' = Some cur'"
          and i': "c_int (i + 1) = Some i'"
          and rec: "ins ht item key index' cur' i' = Some ht'"
          by (auto simp: holds_def split: Option.bind_splits if_splits)
        from 1(1) [OF rec] it a obtain j b where
          p: "placed ht item key j ht'"
          and b: "item_at ht' index' = Some b"
          and s: "ht_search_loop ht' key b i' = Some (Some (item_value item), ht')"
          by blast
        from placed_other [OF p _ miss] a have c: "item_at ht' index = Some cur" by simp
        have "ht_search_loop ht' key cur i = Some (Some (item_value item), ht')"
          using miss g a b s i' placed_fields(1) [OF p]
          by (subst ht_search_loop.simps) (auto simp: holds_def)
        with p c show ?thesis by blast
      qed
    qed
  qed
  with assms show ?thesis by blast
qed

lemma ht_search_after_insert:
  assumes "ht_insert ht key v = Some ht'"
  shows "ht_search ht' key = Some (Some v, ht')"
proof -
  from assms obtain ht1 index cur where
    g: "ht_get_hash key (size_ht ht1) 0 = Some index"
    and it: "item_at ht1 index = Some cur"
    and l: "ht_insert_loop ht1 (Item key v) key index cur 1 = Some ht'"
    by (subst (asm) ht_insert_unfold) (auto simp: ht_new_item_def split: Option.bind_splits)
  from ht_insert_loop_result [OF l it] obtain j b where
    p: "placed ht1 (Item key v) key j ht'"
    and b: "item_at ht' index = Some b"
    and s: "ht_search_loop ht' key b 1 = Some (Some v, ht')"
    by auto
  show ?thesis
    unfolding ht_search_def using g b s placed_fields(1) [OF p] by simp
qed

lemma probed_step:
  assumes "probed ht key j" "probe ht key j = Some b" "b \<noteq> NULL"
  shows "probed ht key (j + 1)"
  unfolding probed_def
proof (intro allI impI)
  fix l assume l: "0 \<le> l \<and> l < j + 1"
  show "\<exists>b. probe ht key l = Some b \<and> b \<noteq> NULL"
  proof (cases "l = j")
    case True
    with assms show ?thesis by simp
  next
    case False
    with l have "0 \<le> l \<and> l < j" by simp
    with assms(1) show ?thesis by (simp add: probed_def)
  qed
qed

lemma ht_insert_loop_first_null:
  assumes "ht_insert_loop ht item key index cur i = Some ht'"
    and "1 \<le> i" "i \<le> INT_MAX" "ht_get_hash (item_key item) (size_ht ht) (i - 1) = Some index"
    and "item_at ht index = Some cur" "probed ht (item_key item) (i - 1)"
    and "\<forall>b \<in> set (items ht). \<not> holds key b"
  shows "\<exists>j idx. i - 1 \<le> j \<and> j < INT_MAX \<and> ht_get_hash (item_key item) (size_ht ht) j = Some idx
           \<and> item_at ht idx = Some NULL \<and> probed ht (item_key item) j
           \<and> ht' = (set_item ht idx (Ptr item))\<lparr>count := count ht + 1\<rparr>"
proof -
  have "1 \<le> i \<and> i \<le> INT_MAX \<and> ht_get_hash (item_key item) (size_ht ht) (i - 1) = Some index
      \<and> item_at ht index = Some cur \<and> probed ht (item_key item) (i - 1)
      \<and> (\<forall>b \<in> set (items ht). \<not> holds key b) \<longrightarrow>
      (\<exists>j idx. i - 1 \<le> j \<and> j < INT_MAX \<and> ht_get_hash (item_key item) (size_ht ht) j = Some idx
           \<and> item_at ht idx = Some NULL \<and> probed ht (item_key item) j
           \<and> ht' = (set_item ht idx (Ptr item))\<lparr>count := count ht + 1\<rparr>)"
    using assms(1)
  proof (rule ht_insert_loop.raw_induct [where P = "\<lambda>ht item key index cur i ht'.
      1 \<le> i \<and> i \<le> INT_MAX \<and> ht_get_hash (item_key item) (size_ht ht) (i - 1) = Some index
      \<and> item_at ht index = Some cur \<and> probed ht (item_key item) (i - 1)
      \<and> (\<forall>b \<in> set (items ht). \<not> holds key b) \<longrightarrow>
      (\<exists>j idx. i - 1 \<le> j \<and> j < INT_MAX \<and> ht_get_hash (item_key item) (size_ht ht) j = Some idx
           \<and> item_at ht idx = Some NULL \<and> probed ht (item_key item) j
           \<and> ht' = (set_item ht idx (Ptr item))\<lparr>count := count ht + 1\<rparr>)", rotated], goal_cases)
    case (1 ins ht item key index cur i ht')
    show ?case
    proof (intro impI)
      assume a: "1 \<le> i \<and> i \<le> INT_MAX \<and> ht_get_hash (item_key item) (size_ht ht) (i - 1) = Some index
      \<and> item_at ht index = Some cur \<and> probed ht (item_key item) (i - 1)
      \<and> (\<forall>b \<in> set (items ht). \<not> holds key b)"
      then have "cur \<in> set (items ht)"
        by (auto dest!: item_at_bounds)
      with a have nh: "\<not> holds key cur" by blast
      show "\<exists>j idx. i - 1 \<le> j \<and> j < INT_MAX \<and> ht_get_hash (item_key item) (size_ht ht) j = Some idx
           \<and> item_at ht idx = Some NULL \<and> probed ht (item_key item) j
           \<and> ht' = (set_item ht idx (Ptr item))\<lparr>count := count ht + 1\<rparr>"
      proof (cases "cur = NULL")
        case True
        with 1(2) have "ht' = (set_item ht index (Ptr item))\<lparr>count := count ht + 1\<rparr>"
          by (auto split: Option.bind_splits dest: c_int_Some)
        moreover from a have "i - 1 \<le> i - 1" "i - 1 < INT_MAX" by simp_all
        ultimately show ?thesis using a True by blast
      next
        case False
        with 1(2) nh obtain index' cur' i' where
          g: "ht_get_hash (item_key item) (size_ht ht) i = Some index'"
          and it: "item_at ht index' = Some cur'"
          and i': "c_int (i + 1) = Some i'"
          and rec: "ins ht item key index' cur' i' = Some ht'"
          by (auto simp: holds_def split: Option.bind_splits if_splits)
        from i' have i'_eq: "i' = i + 1" by (rule c_int_Some)
        from i' have i'_le: "i' \<le> INT_MAX" by (simp add: c_int_def split: if_splits)
        from a have "probe ht (item_key item) (i - 1) = Some cur" by (simp add: probe_def)
        with a False have "probed ht (item_key item) (i - 1 + 1)"
          by (intro probed_step) auto
        then have pr: "probed ht (item_key item) (i' - 1)" by (simp add: i'_eq)
        from 1(1) [OF rec] a g it pr i'_eq i'_le obtain j idx where
          "i' - 1 \<le> j" "j < INT_MAX" "ht_get_hash (item_key item) (size_ht ht) j = Some idx"
          "item_at ht idx = Some NULL" "probed ht (item_key item) j"
          "ht' = (set_item ht idx (Ptr item))\<lparr>count := count ht + 1\<rparr>"
          by auto
        moreover from this(1) i'_eq have "i - 1 \<le> j" by simp
        ultimately show ?thesis by blast
      qed
    qed
  qed
  with assms show ?thesis by blast
qed

lemma ht_insert_loop_reaches:
  assumes "n = nat (j - (i - 1))" "1 \<le> i" "i - 1 \<le> j" "j < INT_MAX"
    and "ht_get_hash (item_key item) (size_ht ht) (i - 1) = Some index"
    and "item_at ht index = Some cur"
    and "\<forall>l. i - 1 \<le> l \<and> l < j \<longrightarrow> (\<exists>b. probe ht (item_key item) l = Some b \<and> b \<noteq> NULL)"
    and "ht_get_hash (item_key item) (size_ht ht) j = Some idx" "item_at ht idx = Some NULL"
    and "\<forall>b \<in> set (items ht). \<not> holds key b"
    and "count ht < INT_MAX" "INT_MIN \<le> count ht + 1"
  shows "ht_insert_loop ht item key index cur i
           = Some ((set_item ht idx (Ptr item))\<lparr>count := count ht + 1\<rparr>)"
  using assms
proof (induction n arbitrary: i index cur)
  case 0
  then have "j = i - 1" by simp
  with 0 have "index = idx" "cur = NULL" by auto
  with 0 show ?case
    by (subst ht_insert_loop.simps) (simp add: c_int_def)
next
  case (Suc n)
  then have lt: "i - 1 < j" by simp
  with Suc.prems obtain b where b: "probe ht (item_key item) (i - 1) = Some b" "b \<noteq> NULL"
    by (metis order_refl)
  with Suc.prems have cur: "cur = b" by (simp add: probe_def)
  from Suc.prems have "cur \<in> set (items ht)" by (auto dest!: item_at_bounds)
  with Suc.prems have nh: "\<not> holds key cur" by blast
  have "\<exists>b'. probe ht (item_key item) i = Some b'"
  proof (cases "i = j")
    case True
    with Suc.prems show ?thesis by (simp add: probe_def)
  next
    case False
    with lt have "i - 1 \<le> i \<and> i < j" by simp
    with Suc.prems show ?thesis by blast
  qed
  then obtain index' cur' where
    g: "ht_get_hash (item_key item) (size_ht ht) i = Some index'"
    and it: "item_at ht index' = Some cur'"
    by (auto simp: probe_def split: Option.bind_splits)
  from lt Suc.prems have ci: "c_int (i + 1) = Some (i + 1)"
    by (simp add: c_int_def INT_MAX_def INT_MIN_def)
  have rec: "ht_insert_loop ht item key index' cur' (i + 1)
           = Some ((set_item ht idx (Ptr item))\<lparr>count := count ht + 1\<rparr>)"
  proof (rule Suc.IH)
    show "n = nat (j - (i + 1 - 1))" using Suc.prems by simp
    show "\<forall>l. i + 1 - 1 \<le> l \<and> l < j \<longrightarrow> (\<exists>b. probe ht (item_key item) l = Some b \<and> b \<noteq> NULL)"
      using Suc.prems by simp
  qed (use Suc.prems lt g it in simp_all)
  show ?case
    using cur b nh g it ci rec
    by (subst ht_insert_loop.simps) (auto simp: holds_def)
qed

lemma ht_insert_loop_overwrites:
  assumes "ht_search_loop ht key item i = Some r" "fst r = Some v1" "item_at ht index = Some item"
  shows "\<exists>j b. item_at ht j = Some b \<and> holds key b \<and> item_value (the_item b) = v1
           \<and> ht_insert_loop ht (Item key v2) key index item i
                = Some (set_item ht j (Ptr (Item key v2)))"
proof -
  have "\<forall>index. fst r = Some v1 \<and> item_at ht index = Some item \<longrightarrow>
      (\<exists>j b. item_at ht j = Some b \<and> holds key b \<and> item_value (the_item b) = v1
           \<and> ht_insert_loop ht (Item key v2) key index item i
                = Some (set_item ht j (Ptr (Item key v2))))"
    using assms(1)
  proof (rule ht_search_loop.raw_induct [where P = "\<lambda>ht key item i r.
      \<forall>index. fst r = Some v1 \<and> item_at ht index = Some item \<longrightarrow>
      (\<exists>j b. item_at ht j = Some b \<and> holds key b \<and> item_value (the_item b) = v1
           \<and> ht_insert_loop ht (Item key v2) key index item i
                = Some (set_item ht j (Ptr (Item key v2))))", rotated], goal_cases)
    case (1 srch ht key item i r)
    show ?case
    proof (intro allI impI)
      fix index
      assume a: "fst r = Some v1 \<and> item_at ht index = Some item"
      with 1(2) have nn: "item \<noteq> NULL" by (auto split: if_splits)
      show "\<exists>j b. item_at ht j = Some b \<and> holds key b \<and> item_value (the_item b) = v1
           \<and> ht_insert_loop ht (Item key v2) key index item i
                = Some (set_item ht j (Ptr (Item key v2)))"
      proof (cases "holds key item")
        case True
        with 1(2) a have "item_value (the_item item) = v1"
          by (auto simp: holds_def split: if_splits)
        moreover from True have "ht_insert_loop ht (Item key v2) key index item i
                = Some (set_item ht index (Ptr (Item key v2)))"
          by (subst ht_insert_loop.simps) (simp add: holds_def live_def)
        ultimately show ?thesis using a True by blast
      next
        case False
        with 1(2) nn obtain index' item' i' where
          g: "ht_get_hash key (size_ht ht) i = Some index'"
          and it: "item_at ht index' = Some item'"
          and i': "c_int (i + 1) = Some i'"
          and rec: "srch ht key item' i' = Some r"
          by (auto simp: holds_def split: Option.bind_splits if_splits)
        from 1(1) [OF rec] a it obtain j b where
          jb: "item_at ht j = Some b" "holds key b" "item_value (the_item b) = v1"
          "ht_insert_loop ht (Item key v2) key index' item' i'
                = Some (set_item ht j (Ptr (Item key v2)))"
          by blast
        have "ht_insert_loop ht (Item key v2) key index item i
                = Some (set_item ht j (Ptr (Item key v2)))"
          using False nn g it i' jb(4)
          by (subst ht_insert_loop.simps) (auto simp: holds_def)
        with jb show ?thesis by blast
      qed
    qed
  qed
  with assms show ?thesis by blast
qed

section \<open>Inserting a key that no bucket holds\<close>

text \<open>
  C5 (as amended). Let \<open>ht1\<close> be the table as the resize step of \<^verbatim>\<open>ht_insert\<close> leaves it
  (\<open>ht\<close> itself when the load is at most 70), and let no bucket of \<open>ht1\<close> hold the key.
  Then \<^verbatim>\<open>ht_insert\<close> returns exactly when the probe sequence of the key reaches a null
  bucket, and the new item is placed in the first null bucket of the sequence: every
  earlier attempt read a bucket that is not null, tombstones included, and none of them
  is reused. \<open>count\<close> grows by one.
\<close>

theorem ht_insert_first_empty:
  assumes "ht_load ht = Some load"
    and "(if 70 < load then ht_resize_up ht else Some ht) = Some ht1"
    and "\<forall>b \<in> set (items ht1). \<not> holds key b"
    and "INT_MIN \<le> count ht1 + 1" "count ht1 + 1 \<le> INT_MAX"
  shows "ht_insert ht key v = Some ht' \<longleftrightarrow>
         (\<exists>j idx. 0 \<le> j \<and> j < INT_MAX \<and> ht_get_hash key (size_ht ht1) j = Some idx
            \<and> item_at ht1 idx = Some NULL
            \<and> (\<forall>l. 0 \<le> l \<and> l < j \<longrightarrow> (\<exists>b. probe ht1 key l = Some b \<and> b \<noteq> NULL))
            \<and> ht' = (set_item ht1 idx (Ptr (Item key v)))\<lparr>count := count ht1 + 1\<rparr>)"
proof
  assume "ht_insert ht key v = Some ht'"
  with assms(1,2) obtain index cur where
    g: "ht_get_hash key (size_ht ht1) 0 = Some index"
    and it: "item_at ht1 index = Some cur"
    and l: "ht_insert_loop ht1 (Item key v) key index cur 1 = Some ht'"
    by (subst (asm) ht_insert_unfold) (auto simp: ht_new_item_def split: Option.bind_splits)
  have p0: "probed ht1 (item_key (Item key v)) (1 - 1)" by (auto simp: probed_def)
  have g0: "ht_get_hash (item_key (Item key v)) (size_ht ht1) (1 - 1) = Some index"
    using g by simp
  have "(1::int) \<le> INT_MAX" by (simp add: INT_MAX_def)
  from ht_insert_loop_first_null [OF l _ this g0 it p0 assms(3)] obtain j idx where
    "0 \<le> j" "j < INT_MAX" "ht_get_hash key (size_ht ht1) j = Some idx" "item_at ht1 idx = Some NULL"
    "probed ht1 key j" "ht' = (set_item ht1 idx (Ptr (Item key v)))\<lparr>count := count ht1 + 1\<rparr>"
    by auto
  then show "\<exists>j idx. 0 \<le> j \<and> j < INT_MAX \<and> ht_get_hash key (size_ht ht1) j = Some idx
            \<and> item_at ht1 idx = Some NULL
            \<and> (\<forall>l. 0 \<le> l \<and> l < j \<longrightarrow> (\<exists>b. probe ht1 key l = Some b \<and> b \<noteq> NULL))
            \<and> ht' = (set_item ht1 idx (Ptr (Item key v)))\<lparr>count := count ht1 + 1\<rparr>"
    unfolding probed_def by blast
next
  assume "\<exists>j idx. 0 \<le> j \<and> j < INT_MAX \<and> ht_get_hash key (size_ht ht1) j = Some idx
            \<and> item_at ht1 idx = Some NULL
            \<and> (\<forall>l. 0 \<le> l \<and> l < j \<longrightarrow> (\<exists>b. probe ht1 key l = Some b \<and> b \<noteq> NULL))
            \<and> ht' = (set_item ht1 idx (Ptr (Item key v)))\<lparr>count := count ht1 + 1\<rparr>"
  then obtain j idx where j: "0 \<le> j" "j < INT_MAX"
    and gj: "ht_get_hash key (size_ht ht1) j = Some idx"
    and itj: "item_at ht1 idx = Some NULL"
    and pr: "\<forall>l. 0 \<le> l \<and> l < j \<longrightarrow> (\<exists>b. probe ht1 key l = Some b \<and> b \<noteq> NULL)"
    and h: "ht' = (set_item ht1 idx (Ptr (Item key v)))\<lparr>count := count ht1 + 1\<rparr>"
    by blast
  have "\<exists>b. probe ht1 key 0 = Some b"
  proof (cases "j = 0")
    case True
    with gj itj show ?thesis by (simp add: probe_def)
  next
    case False
    with j pr show ?thesis by force
  qed
  then obtain index cur where
    g: "ht_get_hash key (size_ht ht1) 0 = Some index"
    and it: "item_at ht1 index = Some cur"
    by (auto simp: probe_def split: Option.bind_splits)
  have "ht_insert_loop ht1 (Item key v) key index cur 1
           = Some ((set_item ht1 idx (Ptr (Item key v)))\<lparr>count := count ht1 + 1\<rparr>)"
  proof (rule ht_insert_loop_reaches [where j = j and n = "nat j"])
    show "\<forall>l. 1 - 1 \<le> l \<and> l < j \<longrightarrow> (\<exists>b. probe ht1 (item_key (Item key v)) l = Some b \<and> b \<noteq> NULL)"
      using pr by simp
  qed (use j g it gj itj assms in simp_all)
  with assms(1,2) g it h show "ht_insert ht key v = Some ht'"
    by (subst ht_insert_unfold) (simp add: ht_new_item_def)
qed

text \<open>
  After \<^verbatim>\<open>"a"\<close> was inserted and deleted, bucket 44 (attempt 0 of \<^verbatim>\<open>"a"\<close>) is a
  tombstone and attempt 1 gives the null bucket 36: the theorem places the new item there.
\<close>

theorem ht_insert_first_empty_witness:
  "ht_load (ht_new\<lparr>items := (items ht_new)[44 := HT_DELETED_ITEM]\<rparr>) = Some 0
   \<and> probe (ht_new\<lparr>items := (items ht_new)[44 := HT_DELETED_ITEM]\<rparr>) ''a'' 0 = Some HT_DELETED_ITEM
   \<and> probe (ht_new\<lparr>items := (items ht_new)[44 := HT_DELETED_ITEM]\<rparr>) ''a'' 1 = Some NULL
   \<and> ht_get_hash ''a'' 53 1 = Some 36
   \<and> ht_insert (ht_new\<lparr>items := (items ht_new)[44 := HT_DELETED_ITEM]\<rparr>) ''a'' ''2''
       = Some ((set_item (ht_new\<lparr>items := (items ht_new)[44 := HT_DELETED_ITEM]\<rparr>) 36
                 (Ptr (Item ''a'' ''2'')))\<lparr>count := 1\<rparr>)"
proof -
  define t where "t = ht_new\<lparr>items := (items ht_new)[44 := HT_DELETED_ITEM]\<rparr>"
  have l: "ht_load t = Some 0" unfolding t_def by code_simp
  have r: "(if 70 < (0::int) then ht_resize_up t else Some t) = Some t" by simp
  have nh: "\<forall>b \<in> set (items t). \<not> holds ''a'' b" unfolding t_def by code_simp
  have c: "INT_MIN \<le> count t + 1" "count t + 1 \<le> INT_MAX" "count t = 0" unfolding t_def by code_simp+
  have sz: "size_ht t = 53" unfolding t_def by code_simp
  have p0: "probe t ''a'' 0 = Some HT_DELETED_ITEM" unfolding t_def by code_simp
  have p1: "probe t ''a'' 1 = Some NULL" unfolding t_def by code_simp
  have g1: "ht_get_hash ''a'' 53 1 = Some 36" by code_simp
  have i1: "item_at t 36 = Some NULL" unfolding t_def by code_simp
  have pr: "\<forall>l. 0 \<le> l \<and> l < (1::int) \<longrightarrow> (\<exists>b. probe t ''a'' l = Some b \<and> b \<noteq> NULL)"
  proof (intro allI impI)
    fix l :: int assume "0 \<le> l \<and> l < 1"
    then have "l = 0" by simp
    with p0 show "\<exists>b. probe t ''a'' l = Some b \<and> b \<noteq> NULL" by simp
  qed
  have rhs: "\<exists>j idx. 0 \<le> j \<and> j < INT_MAX \<and> ht_get_hash ''a'' (size_ht t) j = Some idx
            \<and> item_at t idx = Some NULL
            \<and> (\<forall>l. 0 \<le> l \<and> l < j \<longrightarrow> (\<exists>b. probe t ''a'' l = Some b \<and> b \<noteq> NULL))
            \<and> (set_item t 36 (Ptr (Item ''a'' ''2'')))\<lparr>count := count t + 1\<rparr>
                = (set_item t idx (Ptr (Item ''a'' ''2'')))\<lparr>count := count t + 1\<rparr>"
    using g1 i1 pr sz by (intro exI [of _ 1] exI [of _ 36]) (simp add: INT_MAX_def)
  have "ht_insert t ''a'' ''2'' = Some ((set_item t 36 (Ptr (Item ''a'' ''2'')))\<lparr>count := count t + 1\<rparr>)"
    by (rule iffD2 [OF ht_insert_first_empty [OF l r nh c(1,2)] rhs])
  with l p0 p1 g1 c(3) show ?thesis unfolding t_def by simp
qed

text \<open>
  The claim as stated fails: the tombstone in bucket 44 is the first free bucket of the
  probe sequence of \<^verbatim>\<open>"a"\<close>, but the insert leaves it in place and uses bucket 36.
\<close>

theorem ht_insert_skips_tombstone:
  "ht_run [Insert ''a'' ''1'', Delete ''a''] = Some (ht_new\<lparr>items := (items ht_new)[44 := HT_DELETED_ITEM]\<rparr>)
   \<and> probe (ht_new\<lparr>items := (items ht_new)[44 := HT_DELETED_ITEM]\<rparr>) ''a'' 0 = Some HT_DELETED_ITEM
   \<and> ht_insert (ht_new\<lparr>items := (items ht_new)[44 := HT_DELETED_ITEM]\<rparr>) ''a'' ''2''
       = Some (ht_new\<lparr>count := 1, items := (items ht_new)[44 := HT_DELETED_ITEM, 36 := Ptr (Item ''a'' ''2'')]\<rparr>)"
  by code_simp

section \<open>Invariants of insert and resize\<close>

lemma ofold_preserves:
  assumes "\<And>x s s'. f x s = Some s' \<Longrightarrow> Q s \<Longrightarrow> Q s'" "ofold f xs s = Some s'" "Q s"
  shows "Q s'"
  using assms(2,3)
proof (induction xs arbitrary: s)
  case Nil
  then show ?case by simp
next
  case (Cons x xs)
  then show ?case by (auto split: Option.bind_splits dest: assms(1))
qed

lemma ht_resize_with_establishes:
  assumes ins: "\<And>t k v t'. ins t k v = Some t' \<Longrightarrow> Q t \<Longrightarrow> Q t'"
    and new: "Q (ht_new_sized bs)"
    and r: "ht_resize_with ins ht bs = Some ht'"
    and bs: "\<not> bs < HT_INITIAL_BASE_SIZE"
  shows "Q ht'"
proof -
  let ?f = "\<lambda>i new_ht. Option.bind (item_at ht (int i)) (\<lambda>item.
            if item \<noteq> NULL \<and> item \<noteq> HT_DELETED_ITEM
            then ins new_ht (item_key (the_item item)) (item_value (the_item item))
            else Some new_ht)"
  from r bs obtain new_ht where
    f: "ofold ?f [0..<nat (size_ht ht)] (ht_new_sized bs) = Some new_ht"
    and h: "ht' = ht\<lparr>base_size := base_size new_ht, count := count new_ht,
                 size_ht := size_ht new_ht, items := items new_ht\<rparr>"
    unfolding ht_resize_with_def by (auto split: Option.bind_splits)
  have "Q new_ht"
  proof (rule ofold_preserves [where Q = Q and f = ?f])
    fix x s s'
    assume "?f x s = Some s'" "Q s"
    then show "Q s'" by (auto split: Option.bind_splits if_splits dest: ins)
  qed (rule f, rule new)
  moreover from h have "ht' = new_ht" by simp
  ultimately show ?thesis by simp
qed

lemma ht_insert_preserves:
  assumes new: "\<And>bs. \<not> bs < HT_INITIAL_BASE_SIZE \<Longrightarrow> Q (ht_new_sized bs)"
    and pl: "\<And>ht item key j ht'. placed ht item key j ht' \<Longrightarrow> Q ht \<Longrightarrow> Q ht'"
    and i: "ht_insert ht key v = Some ht'" and q: "Q ht"
  shows "Q ht'"
proof -
  have "Q ht \<longrightarrow> Q ht'"
    using i
  proof (rule ht_insert.raw_induct [where P = "\<lambda>ht key v ht'. Q ht \<longrightarrow> Q ht'", rotated], goal_cases)
    case (1 ins ht key v ht')
    show ?case
    proof
      assume q: "Q ht"
      from 1(2) obtain load ht1 index cur where
        r: "(if (70::int) < load then Option.bind (c_int (base_size ht * 2)) (ht_resize_with ins ht)
             else Some ht) = Some ht1"
        and it: "item_at ht1 index = Some cur"
        and l: "ht_insert_loop ht1 (Item key v) key index cur 1 = Some ht'"
        unfolding bind_eq_Some_conv ht_new_item_def by auto
      have "Q ht1"
      proof (cases "70 < load")
        case False
        with r q show ?thesis by simp
      next
        case True
        with r obtain ns where ns: "ht_resize_with ins ht ns = Some ht1"
          by (auto split: Option.bind_splits)
        show ?thesis
        proof (cases "ns < HT_INITIAL_BASE_SIZE")
          case True
          with ns q show ?thesis by (simp add: ht_resize_with_def)
        next
          case False
          show ?thesis
          proof (rule ht_resize_with_establishes [where Q = Q and ins = ins])
            show "Q (ht_new_sized ns)" using False by (rule new)
          qed (use 1(1) ns False in blast)+
        qed
      qed
      moreover from ht_insert_loop_result [OF l it] obtain j where "placed ht1 (Item key v) key j ht'"
        by auto
      ultimately show "Q ht'" by (rule pl [rotated])
    qed
  qed
  with q show ?thesis by simp
qed

lemma ht_resize_establishes:
  assumes new: "\<And>bs. \<not> bs < HT_INITIAL_BASE_SIZE \<Longrightarrow> Q (ht_new_sized bs)"
    and pl: "\<And>ht item key j ht'. placed ht item key j ht' \<Longrightarrow> Q ht \<Longrightarrow> Q ht'"
    and r: "ht_resize ht bs = Some ht'" and bs: "\<not> bs < HT_INITIAL_BASE_SIZE"
  shows "Q ht'"
proof (rule ht_resize_with_establishes [where Q = Q and ins = ht_insert])
  show "ht_resize_with ht_insert ht bs = Some ht'" using r by (simp add: ht_resize_def)
next
  fix t k v t' assume a: "ht_insert t k v = Some t'" "Q t"
  show "Q t'"
  proof (rule ht_insert_preserves [where Q = Q])
    show "\<And>bs. \<not> bs < HT_INITIAL_BASE_SIZE \<Longrightarrow> Q (ht_new_sized bs)" by (rule new)
    show "\<And>ht item key j ht'. placed ht item key j ht' \<Longrightarrow> Q ht \<Longrightarrow> Q ht'" by (rule pl)
  qed (rule a)+
next
  show "Q (ht_new_sized bs)" using bs by (rule new)
qed (rule bs)

section \<open>The count after a resize\<close>

lemma filter_live_same:
  "j < length xs \<Longrightarrow> live (xs ! j) = live y \<Longrightarrow>
   length (filter live (xs[j := y])) = length (filter live xs)"
proof (induction xs arbitrary: j)
  case Nil
  then show ?case by simp
next
  case (Cons x xs)
  then show ?case by (cases j) auto
qed

lemma filter_live_more:
  "j < length xs \<Longrightarrow> \<not> live (xs ! j) \<Longrightarrow> live y \<Longrightarrow>
   length (filter live (xs[j := y])) = Suc (length (filter live xs))"
proof (induction xs arbitrary: j)
  case Nil
  then show ?case by simp
next
  case (Cons x xs)
  then show ?case by (cases j) auto
qed

lemma placed_count:
  assumes "placed ht item key j ht'"
  shows "count ht' - live_count ht' = count ht - live_count ht"
proof -
  from assms consider
    (null) "item_at ht j = Some NULL" "ht' = (set_item ht j (Ptr item))\<lparr>count := count ht + 1\<rparr>"
    | (hit) b where "item_at ht j = Some b" "holds key b" "ht' = set_item ht j (Ptr item)"
    by (auto simp: placed_def)
  then show ?thesis
  proof cases
    case null
    from item_at_bounds [OF null(1)] have "nat j < length (items ht)" "\<not> live (items ht ! nat j)"
      by (simp_all add: live_def)
    then have "length (filter live ((items ht)[nat j := Ptr item])) = Suc (length (filter live (items ht)))"
      by (rule filter_live_more) (simp add: live_def)
    with null(2) show ?thesis by (simp add: live_count_def)
  next
    case hit
    from item_at_bounds [OF hit(1)] hit(2) have "nat j < length (items ht)" "live (items ht ! nat j) = live (Ptr item)"
      by (simp_all add: live_def holds_def)
    then have "length (filter live ((items ht)[nat j := Ptr item])) = length (filter live (items ht))"
      by (rule filter_live_same)
    with hit(3) show ?thesis by (simp add: live_count_def)
  qed
qed

lemma ht_new_sized_count: "count (ht_new_sized bs) = live_count (ht_new_sized bs)"
  by (simp add: ht_new_sized_def live_count_def live_def)

text \<open>
  The old bucket array goes to \<^verbatim>\<open>ht_del_hash_table\<close> with the temporary table: a resize
  that takes effect has a result only if none of the old buckets is a tombstone.
\<close>

lemma ofold_unit_all:
  "ofold f xs (u::unit) = Some u' \<Longrightarrow> x \<in> set xs \<Longrightarrow> f x () = Some ()"
  by (induction xs arbitrary: u) (auto split: Option.bind_splits)

lemma ht_del_hash_table_Some:
  assumes "ht_del_hash_table ht = Some u" "0 \<le> i" "i < size_ht ht"
  shows "\<exists>b. item_at ht i = Some b \<and> b \<noteq> HT_DELETED_ITEM"
proof -
  from assms(2,3) have "nat i \<in> set [0..<nat (size_ht ht)]" by simp
  from ofold_unit_all [OF assms(1) [unfolded ht_del_hash_table_def] this] assms(2)
  show ?thesis
    by (auto simp: ht_del_item_Some split: Option.bind_splits if_splits)
qed

lemma ht_resize_no_tombstone:
  assumes "ht_resize ht bs = Some ht'" "\<not> bs < HT_INITIAL_BASE_SIZE" "0 \<le> i" "i < size_ht ht"
  shows "\<exists>b. item_at ht i = Some b \<and> b \<noteq> HT_DELETED_ITEM"
proof -
  from assms(1,2) obtain new_ht u where
    "ht_del_hash_table (new_ht\<lparr>size_ht := size_ht ht, items := items ht\<rparr>) = Some u"
    unfolding ht_resize_def ht_resize_with_def by (auto split: Option.bind_splits)
  from ht_del_hash_table_Some [OF this, of i] assms(3,4) show ?thesis
    by (auto simp: item_at_def split: if_splits)
qed

lemma ht_resize_live_count:
  assumes "ht_resize ht bs = Some ht'" "\<not> bs < HT_INITIAL_BASE_SIZE"
  shows "count ht' = live_count ht'"
proof (rule ht_resize_establishes [where Q = "\<lambda>t. count t = live_count t"])
  show "ht_resize ht bs = Some ht'" by (rule assms)
  show "\<not> bs < HT_INITIAL_BASE_SIZE" by (rule assms)
next
  fix ht item key j ht'
  assume "placed ht item key j ht'" "count ht = live_count ht"
  then show "count ht' = live_count ht'" using placed_count by fastforce
qed (rule ht_new_sized_count)

section \<open>The size of the table is prime\<close>

lemma next_prime_prime: "is_prime (next_prime n)"
  by (induction n rule: next_prime.induct) (subst next_prime.simps, simp)

lemma prime_ge_50:
  assumes "is_prime p" "50 \<le> p"
  shows "53 \<le> p"
proof (rule ccontr)
  assume "\<not> 53 \<le> p"
  with assms(2) have "p = 50 \<or> p = 51 \<or> p = 52" by arith
  moreover have "\<not> is_prime 50" "\<not> is_prime 51" "\<not> is_prime 52" by code_simp+
  ultimately show False using assms(1) by auto
qed

lemma next_prime_ge: "n \<le> next_prime n"
  by (induction n rule: next_prime.induct) (subst next_prime.simps, fastforce)

lemma size_inv_new: "\<not> bs < HT_INITIAL_BASE_SIZE \<Longrightarrow> size_inv (ht_new_sized bs)"
  by (simp add: size_inv_def ht_new_sized_def)

lemma size_inv_placed: "placed ht item key j ht' \<Longrightarrow> size_inv ht \<Longrightarrow> size_inv ht'"
  by (simp add: size_inv_def placed_fields)

lemma size_inv_insert: "ht_insert ht key v = Some ht' \<Longrightarrow> size_inv ht \<Longrightarrow> size_inv ht'"
  by (rule ht_insert_preserves [where Q = size_inv, OF size_inv_new size_inv_placed])

lemma size_inv_resize:
  assumes "ht_resize ht bs = Some ht'" "size_inv ht"
  shows "size_inv ht'"
proof (cases "bs < HT_INITIAL_BASE_SIZE")
  case True
  with assms show ?thesis by (simp add: ht_resize_noop)
next
  case False
  show ?thesis
  proof (rule ht_resize_establishes [where Q = size_inv])
    show "ht_resize ht bs = Some ht'" by (rule assms)
    show "\<not> bs < HT_INITIAL_BASE_SIZE" by (rule False)
  qed (erule size_inv_new, erule size_inv_placed, assumption)
qed

lemma size_inv_delete:
  assumes "ht_delete ht key = Some ht'" "size_inv ht"
  shows "size_inv ht'"
proof -
  from assms(1) obtain load ht1 index item ht2 c where
    r: "(if load < (10::int) then ht_resize_down ht else Some ht) = Some ht1"
    and d: "ht_delete_loop ht1 key index item 1 = Some ht2"
    and h: "ht' = ht2\<lparr>count := c\<rparr>"
    unfolding ht_delete_def by (auto split: Option.bind_splits)
  from r assms(2) have "size_inv ht1"
    by (auto simp: ht_resize_down_def split: if_splits Option.bind_splits dest: size_inv_resize)
  with ht_delete_loop_fields [OF d] h show ?thesis by (simp add: size_inv_def)
qed

lemma size_inv_step: "ht_step x ht = Some ht' \<Longrightarrow> size_inv ht \<Longrightarrow> size_inv ht'"
  by (cases x) (auto dest: size_inv_insert size_inv_delete ht_search_same)

lemma size_inv_run:
  assumes "ht_run ops = Some ht"
  shows "size_inv ht"
proof -
  have "size_inv ht_new" by (simp add: ht_new_def size_inv_new)
  with assms show ?thesis
    unfolding ht_run_def by (rule ofold_preserves [where Q = size_inv, OF size_inv_step, rotated 2])
qed

text \<open>
  C7. After any sequence of inserts, searches and deletes on the table made by
  \<^verbatim>\<open>ht_new\<close>, the \<open>size\<close> field is a prime and at least \<open>next_prime(50) = 53\<close>.
\<close>

theorem ht_size_prime:
  assumes "ht_run ops = Some ht"
  shows "is_prime (size_ht ht) \<and> next_prime HT_INITIAL_BASE_SIZE \<le> size_ht ht
         \<and> next_prime HT_INITIAL_BASE_SIZE = 53"
proof -
  have "size_inv ht_new" by (simp add: ht_new_def size_inv_new)
  with assms have "size_inv ht"
    unfolding ht_run_def by (rule ofold_preserves [where Q = size_inv, OF size_inv_step, rotated 2])
  then have "is_prime (size_ht ht)" "50 \<le> size_ht ht"
    using next_prime_ge [of "base_size ht"]
    by (simp_all add: size_inv_def next_prime_prime HT_INITIAL_BASE_SIZE_def)
  moreover from this have "53 \<le> size_ht ht" by (rule prime_ge_50)
  moreover have "next_prime HT_INITIAL_BASE_SIZE = 53" by code_simp
  ultimately show ?thesis by simp
qed

theorem ht_size_prime_witness:
  "\<exists>T. ht_run (map (\<lambda>k. Insert k ''v'') keys39 @ [Search ''A'', Delete ''B'']) = Some T
     \<and> size_ht T = 101 \<and> is_prime (size_ht T) \<and> next_prime HT_INITIAL_BASE_SIZE \<le> size_ht T"
proof -
  let ?ops = "map (\<lambda>k. Insert k ''v'') keys39 @ [Search ''A'', Delete ''B'']"
  have "map_option size_ht (ht_run ?ops) = Some 101" by code_simp
  then obtain T where T: "ht_run ?ops = Some T" "size_ht T = 101" by auto
  from ht_size_prime [OF T(1)] T show ?thesis by blast
qed

section \<open>What the operations guarantee when they return\<close>

text \<open>
  The tables reached through the interface satisfy \<open>table_inv\<close>; on such a table a key
  is found by \<^verbatim>\<open>ht_search\<close> exactly when a bucket holds it, at most one bucket holds
  it, and \<^verbatim>\<open>ht_insert\<close> and \<^verbatim>\<open>ht_resize\<close> keep every other key with its value.
\<close>

lemma reach_unique:
  assumes "reach t k n j" "reach t k n' j'"
    and "item_at t j = Some b" "b = NULL \<or> holds k b"
    and "item_at t j' = Some b'" "b' = NULL \<or> holds k b'"
  shows "j = j'"
proof -
  have a: False if "reach t k m i" "reach t k m' i'" "m < m'" "item_at t i = Some c" "c = NULL \<or> holds k c"
    for m m' i i' c
  proof -
    from that(1) have "0 \<le> m" "ht_get_hash k (size_ht t) m = Some i" by (simp_all add: reach_def)
    with that(2,3) obtain d where "probe t k m = Some d" "d \<noteq> NULL" "\<not> holds k d"
      unfolding reach_def by blast
    with \<open>ht_get_hash k (size_ht t) m = Some i\<close> that(4,5) show False
      by (auto simp: probe_def)
  qed
  consider "n < n'" | "n' < n" | "n = n'" by linarith
  then show ?thesis
  proof cases
    case 1
    with a [OF assms(1,2) _ assms(3,4)] show ?thesis by blast
  next
    case 2
    with a [OF assms(2,1) _ assms(5,6)] show ?thesis by blast
  next
    case 3
    with assms(1,2) show ?thesis by (simp add: reach_def)
  qed
qed

lemma ht_search_loop_reaches:
  assumes "m = nat (n - (i - 1))" "1 \<le> i" "i - 1 \<le> n" "n < INT_MAX"
    and "ht_get_hash k (size_ht t) (i - 1) = Some index"
    and "item_at t index = Some cur"
    and "\<forall>l. i - 1 \<le> l \<and> l < n \<longrightarrow> (\<exists>b. probe t k l = Some b \<and> b \<noteq> NULL \<and> \<not> holds k b)"
    and "ht_get_hash k (size_ht t) n = Some j" "item_at t j = Some b" "holds k b"
  shows "ht_search_loop t k cur i = Some (Some (item_value (the_item b)), t)"
  using assms
proof (induction m arbitrary: i index cur)
  case 0
  then have "n = i - 1" by simp
  with 0 have "index = j" "cur = b" by auto
  with 0 show ?case
    by (subst ht_search_loop.simps) (auto simp: holds_def)
next
  case (Suc m)
  then have lt: "i - 1 < n" by simp
  with Suc.prems obtain c where c: "probe t k (i - 1) = Some c" "c \<noteq> NULL" "\<not> holds k c"
    by (metis order_refl)
  with Suc.prems have cur: "cur = c" by (simp add: probe_def)
  have "\<exists>b'. probe t k i = Some b'"
  proof (cases "i = n")
    case True
    with Suc.prems show ?thesis by (simp add: probe_def)
  next
    case False
    with lt have "i - 1 \<le> i \<and> i < n" by simp
    with Suc.prems show ?thesis by blast
  qed
  then obtain index' cur' where
    g: "ht_get_hash k (size_ht t) i = Some index'"
    and it: "item_at t index' = Some cur'"
    by (auto simp: probe_def split: Option.bind_splits)
  from lt Suc.prems have ci: "c_int (i + 1) = Some (i + 1)"
    by (simp add: c_int_def INT_MAX_def INT_MIN_def)
  have rec: "ht_search_loop t k cur' (i + 1) = Some (Some (item_value (the_item b)), t)"
  proof (rule Suc.IH)
    show "m = nat (n - (i + 1 - 1))" using Suc.prems by simp
    show "\<forall>l. i + 1 - 1 \<le> l \<and> l < n \<longrightarrow> (\<exists>b. probe t k l = Some b \<and> b \<noteq> NULL \<and> \<not> holds k b)"
      using Suc.prems by simp
  qed (use Suc.prems lt g it in simp_all)
  show ?case
    using cur c g it ci rec
    by (subst ht_search_loop.simps) (auto simp: holds_def)
qed

lemma ht_search_reach:
  assumes "reach t k n j" "item_at t j = Some b" "holds k b"
  shows "ht_search t k = Some (Some (item_value (the_item b)), t)"
proof -
  from assms(1) have n: "0 \<le> n" "n < INT_MAX" and gj: "ht_get_hash k (size_ht t) n = Some j"
    and pr: "\<forall>l. 0 \<le> l \<and> l < n \<longrightarrow> (\<exists>b. probe t k l = Some b \<and> b \<noteq> NULL \<and> \<not> holds k b)"
    by (simp_all add: reach_def)
  have "\<exists>c. probe t k 0 = Some c"
  proof (cases "n = 0")
    case True
    with gj assms(2) show ?thesis by (simp add: probe_def)
  next
    case False
    with n pr show ?thesis by force
  qed
  then obtain index cur where
    g: "ht_get_hash k (size_ht t) 0 = Some index" and it: "item_at t index = Some cur"
    by (auto simp: probe_def split: Option.bind_splits)
  have "ht_search_loop t k cur 1 = Some (Some (item_value (the_item b)), t)"
  proof (rule ht_search_loop_reaches [where n = n and m = "nat n" and j = j])
    show "\<forall>l. 1 - 1 \<le> l \<and> l < n \<longrightarrow> (\<exists>b. probe t k l = Some b \<and> b \<noteq> NULL \<and> \<not> holds k b)"
      using pr by simp
  qed (use n g it gj assms in simp_all)
  with g it show ?thesis by (simp add: ht_search_def)
qed

lemma ht_insert_loop_reach:
  assumes "ht_insert_loop t item key index cur i = Some t'"
    and "1 \<le> i" "i \<le> INT_MAX" "ht_get_hash (item_key item) (size_ht t) (i - 1) = Some index"
    and "item_at t index = Some cur" "item_key item = key"
    and "\<forall>l. 0 \<le> l \<and> l < i - 1 \<longrightarrow> (\<exists>b. probe t key l = Some b \<and> b \<noteq> NULL \<and> \<not> holds key b)"
  shows "\<exists>n j. reach t key n j \<and> placed t item key j t'"
proof -
  have "1 \<le> i \<and> i \<le> INT_MAX \<and> ht_get_hash (item_key item) (size_ht t) (i - 1) = Some index
      \<and> item_at t index = Some cur \<and> item_key item = key
      \<and> (\<forall>l. 0 \<le> l \<and> l < i - 1 \<longrightarrow> (\<exists>b. probe t key l = Some b \<and> b \<noteq> NULL \<and> \<not> holds key b))
      \<longrightarrow> (\<exists>n j. reach t key n j \<and> placed t item key j t')"
    using assms(1)
  proof (rule ht_insert_loop.raw_induct [where P = "\<lambda>t item key index cur i t'.
      1 \<le> i \<and> i \<le> INT_MAX \<and> ht_get_hash (item_key item) (size_ht t) (i - 1) = Some index
      \<and> item_at t index = Some cur \<and> item_key item = key
      \<and> (\<forall>l. 0 \<le> l \<and> l < i - 1 \<longrightarrow> (\<exists>b. probe t key l = Some b \<and> b \<noteq> NULL \<and> \<not> holds key b))
      \<longrightarrow> (\<exists>n j. reach t key n j \<and> placed t item key j t')", rotated], goal_cases)
    case (1 ins t item key index cur i t')
    show ?case
    proof (intro impI)
      assume a: "1 \<le> i \<and> i \<le> INT_MAX \<and> ht_get_hash (item_key item) (size_ht t) (i - 1) = Some index
      \<and> item_at t index = Some cur \<and> item_key item = key
      \<and> (\<forall>l. 0 \<le> l \<and> l < i - 1 \<longrightarrow> (\<exists>b. probe t key l = Some b \<and> b \<noteq> NULL \<and> \<not> holds key b))"
      then have r: "reach t key (i - 1) index" by (auto simp: reach_def)
      consider (null) "cur = NULL" | (hit) "cur \<noteq> NULL" "holds key cur" | (miss) "cur \<noteq> NULL" "\<not> holds key cur"
        by blast
      then show "\<exists>n j. reach t key n j \<and> placed t item key j t'"
      proof cases
        case null
        with 1(2) have "t' = (set_item t index (Ptr item))\<lparr>count := count t + 1\<rparr>"
          by (auto split: Option.bind_splits dest: c_int_Some)
        with a null have "placed t item key index t'" by (simp add: placed_def)
        with r show ?thesis by blast
      next
        case hit
        with 1(2) have "t' = set_item t index (Ptr item)"
          by (auto simp: holds_def split: Option.bind_splits)
        with a hit have "placed t item key index t'" by (auto simp: placed_def)
        with r show ?thesis by blast
      next
        case miss
        with 1(2) obtain index' cur' i' where
          g: "ht_get_hash (item_key item) (size_ht t) i = Some index'"
          and it: "item_at t index' = Some cur'"
          and i': "c_int (i + 1) = Some i'"
          and rec: "ins t item key index' cur' i' = Some t'"
          by (auto simp: holds_def split: Option.bind_splits if_splits)
        from i' have i'_eq: "i' = i + 1" by (rule c_int_Some)
        from i' have i'_le: "i' \<le> INT_MAX" by (simp add: c_int_def split: if_splits)
        from a have pc: "probe t key (i - 1) = Some cur" by (auto simp: probe_def)
        have "\<forall>l. 0 \<le> l \<and> l < i' - 1 \<longrightarrow> (\<exists>b. probe t key l = Some b \<and> b \<noteq> NULL \<and> \<not> holds key b)"
        proof (intro allI impI)
          fix l assume l: "0 \<le> l \<and> l < i' - 1"
          show "\<exists>b. probe t key l = Some b \<and> b \<noteq> NULL \<and> \<not> holds key b"
          proof (cases "l = i - 1")
            case True
            with pc miss show ?thesis by simp
          next
            case False
            with l i'_eq have "0 \<le> l \<and> l < i - 1" by simp
            with a show ?thesis by blast
          qed
        qed
        with 1(1) [OF rec] a g it i'_eq i'_le show ?thesis by simp
      qed
    qed
  qed
  with assms show ?thesis by blast
qed

lemma placed_old:
  assumes "placed t item k j t'"
  shows "\<exists>b. item_at t j = Some b \<and> (b = NULL \<or> holds k b)"
  using assms by (auto simp: placed_def)

lemma placed_item_at:
  assumes "placed t item k j t'"
  shows "item_at t' i = (if i = j then Some (Ptr item) else item_at t i)"
proof -
  from placed_old [OF assms] obtain b where "item_at t j = Some b" by blast
  then show ?thesis
    using placed_fields(6) [OF assms] by (auto simp: item_at_def split: if_splits)
qed

lemma placed_probe:
  assumes "placed t item k j t'" "item_key item = k"
    and "probe t k2 l = Some b" "b \<noteq> NULL" "\<not> holds k2 b"
  shows "\<exists>b'. probe t' k2 l = Some b' \<and> b' \<noteq> NULL \<and> \<not> holds k2 b'"
proof -
  from assms(3) obtain idx where g: "ht_get_hash k2 (size_ht t) l = Some idx"
    and it: "item_at t idx = Some b"
    by (auto simp: probe_def split: Option.bind_splits)
  show ?thesis
  proof (cases "idx = j")
    case False
    with g it assms(4,5) show ?thesis
      by (simp add: probe_def placed_fields(1) [OF assms(1)] placed_item_at [OF assms(1)])
  next
    case True
    with placed_old [OF assms(1)] it assms(4) have "holds k b" by auto
    with assms(5) have "k2 \<noteq> k" by auto
    with True g assms(2) show ?thesis
      by (simp add: probe_def placed_fields(1) [OF assms(1)] placed_item_at [OF assms(1)] holds_def)
  qed
qed

lemma placed_reach:
  assumes "placed t item k j t'" "item_key item = k" "reach t k2 n j2"
  shows "reach t' k2 n j2"
  using assms(3) placed_probe [OF assms(1,2)]
  unfolding reach_def placed_fields(1) [OF assms(1)] by blast

lemma table_inv_placed:
  assumes "table_inv t" "reach t k n j" "placed t item k j t'" "item_key item = k"
  shows "table_inv t'"
  unfolding table_inv_def
proof (intro conjI allI impI)
  show "length (items t') = nat (size_ht t')"
    using assms(1) placed_fields(1,3) [OF assms(3)] by (simp add: table_inv_def)
next
  fix j2 b
  assume a: "item_at t' j2 = Some b \<and> live b"
  show "\<exists>n. reach t' (item_key (the_item b)) n j2"
  proof (cases "j2 = j")
    case True
    with a have "b = Ptr item" by (simp add: placed_item_at [OF assms(3)])
    with True assms(4) placed_reach [OF assms(3,4,2)] show ?thesis by auto
  next
    case False
    with a have "item_at t j2 = Some b \<and> live b" by (simp add: placed_item_at [OF assms(3)])
    with assms(1) obtain n2 where "reach t (item_key (the_item b)) n2 j2"
      unfolding table_inv_def by blast
    from placed_reach [OF assms(3,4) this] show ?thesis ..
  qed
qed

lemma stored_placed_new:
  assumes "placed t (Item k v) k j t'"
  shows "stored t' k v"
  unfolding stored_def using placed_at [OF assms]
  by (intro exI [of _ j] exI [of _ "Ptr (Item k v)"]) (simp add: holds_def)

lemma stored_placed_other:
  assumes "placed t item k j t'" "k2 \<noteq> k" "stored t k2 v2"
  shows "stored t' k2 v2"
proof -
  from assms(3) obtain j2 b where b: "item_at t j2 = Some b" "holds k2 b" "item_value (the_item b) = v2"
    unfolding stored_def by blast
  with placed_old [OF assms(1)] assms(2) have "j2 \<noteq> j" by (auto simp: holds_def)
  with b have "item_at t' j2 = Some b" by (simp add: placed_item_at [OF assms(1)])
  with b show ?thesis unfolding stored_def by blast
qed

lemma stored_found:
  assumes "table_inv t" "stored t k v"
  shows "ht_search t k = Some (Some v, t)"
proof -
  from assms(2) obtain j b where b: "item_at t j = Some b" "holds k b" "item_value (the_item b) = v"
    unfolding stored_def by blast
  with assms(1) obtain n where "reach t k n j"
    unfolding table_inv_def by (auto simp: holds_def live_def)
  from ht_search_reach [OF this b(1,2)] b(3) show ?thesis by simp
qed

lemma table_inv_unique:
  assumes "table_inv t" "item_at t j = Some b" "holds k b" "item_at t j' = Some b'" "holds k b'"
  shows "j = j'"
proof -
  from assms obtain n n' where "reach t k n j" "reach t k n' j'"
    unfolding table_inv_def by (metis holds_def live_def)
  then show ?thesis using assms(2-5) by (auto intro: reach_unique)
qed

lemma table_inv_new: "table_inv (ht_new_sized bs)"
  by (auto simp: table_inv_def ht_new_sized_def item_at_def live_def split: if_splits)

lemma rebuild_loop:
  assumes ins: "\<And>N k v N'. ins N k v = Some N' \<Longrightarrow> table_inv N \<Longrightarrow>
      table_inv N' \<and> stored N' k v \<and> (\<forall>k2 v2. k2 \<noteq> k \<and> stored N k2 v2 \<longrightarrow> stored N' k2 v2)"
    and inv: "table_inv t" and n0: "table_inv N0"
    and f: "ofold (\<lambda>i new_ht. Option.bind (item_at t (int i)) (\<lambda>item.
            if item \<noteq> NULL \<and> item \<noteq> HT_DELETED_ITEM
            then ins new_ht (item_key (the_item item)) (item_value (the_item item))
            else Some new_ht)) [0..<m] N0 = Some N"
  shows "table_inv N \<and> (\<forall>j<m. \<forall>b. item_at t (int j) = Some b \<and> live b \<longrightarrow>
            stored N (item_key (the_item b)) (item_value (the_item b)))"
  using f
proof (induction m arbitrary: N)
  case 0
  with n0 show ?case by simp
next
  case (Suc m)
  let ?f = "\<lambda>i new_ht. Option.bind (item_at t (int i)) (\<lambda>item.
            if item \<noteq> NULL \<and> item \<noteq> HT_DELETED_ITEM
            then ins new_ht (item_key (the_item item)) (item_value (the_item item))
            else Some new_ht)"
  from Suc.prems obtain Nm where
    m: "ofold ?f [0..<m] N0 = Some Nm" and s: "?f m Nm = Some N"
    by (auto simp: ofold_append ofold_single split: Option.bind_splits)
  from Suc.IH [OF m] have invm: "table_inv Nm"
    and stm: "\<And>j b. j < m \<Longrightarrow> item_at t (int j) = Some b \<Longrightarrow> live b \<Longrightarrow>
            stored Nm (item_key (the_item b)) (item_value (the_item b))"
    by blast+
  from s obtain item where it: "item_at t (int m) = Some item"
    and st: "(if item \<noteq> NULL \<and> item \<noteq> HT_DELETED_ITEM
            then ins Nm (item_key (the_item item)) (item_value (the_item item))
            else Some Nm) = Some N"
    by (auto split: Option.bind_splits)
  show ?case
  proof (cases "live item")
    case False
    then have "item = NULL \<or> item = HT_DELETED_ITEM" by (simp add: live_def)
    with st have "N = Nm" by auto
    moreover have "stored Nm (item_key (the_item b)) (item_value (the_item b))"
      if "j < Suc m" "item_at t (int j) = Some b" "live b" for j b
    proof (cases "j = m")
      case True
      with that it False show ?thesis by simp
    next
      case False
      with that show ?thesis by (intro stm) simp_all
    qed
    ultimately show ?thesis using invm by blast
  next
    case True
    with st have i: "ins Nm (item_key (the_item item)) (item_value (the_item item)) = Some N"
      by (simp add: live_def)
    from ins [OF i invm] have invN: "table_inv N"
      and new: "stored N (item_key (the_item item)) (item_value (the_item item))"
      and other: "\<And>k2 v2. k2 \<noteq> item_key (the_item item) \<Longrightarrow> stored Nm k2 v2 \<Longrightarrow> stored N k2 v2"
      by blast+
    have "stored N (item_key (the_item b)) (item_value (the_item b))"
      if "j < Suc m" "item_at t (int j) = Some b" "live b" for j b
    proof (cases "j = m")
      case True
      with that it new show ?thesis by simp
    next
      case False
      with that have jm: "j < m" by simp
      have "item_key (the_item b) \<noteq> item_key (the_item item)"
      proof
        assume e: "item_key (the_item b) = item_key (the_item item)"
        have "int j = int m"
          by (rule table_inv_unique [OF inv that(2) _ it, where k = "item_key (the_item item)"])
            (use that(3) True e in \<open>simp_all add: holds_def live_def\<close>)
        with False show False by simp
      qed
      then show ?thesis by (rule other) (rule stm [OF jm that(2,3)])
    qed
    with invN show ?thesis by blast
  qed
qed

lemma ht_resize_with_correct:
  assumes ins: "\<And>N k v N'. ins N k v = Some N' \<Longrightarrow> table_inv N \<Longrightarrow>
      table_inv N' \<and> stored N' k v \<and> (\<forall>k2 v2. k2 \<noteq> k \<and> stored N k2 v2 \<longrightarrow> stored N' k2 v2)"
    and inv: "table_inv t" and r: "ht_resize_with ins t bs = Some t1"
  shows "table_inv t1 \<and> (\<forall>k v. stored t k v \<longrightarrow> stored t1 k v)"
proof (cases "bs < HT_INITIAL_BASE_SIZE")
  case True
  with r inv show ?thesis by (simp add: ht_resize_with_def)
next
  case False
  let ?f = "\<lambda>i new_ht. Option.bind (item_at t (int i)) (\<lambda>item.
            if item \<noteq> NULL \<and> item \<noteq> HT_DELETED_ITEM
            then ins new_ht (item_key (the_item item)) (item_value (the_item item))
            else Some new_ht)"
  from r False obtain N where
    f: "ofold ?f [0..<nat (size_ht t)] (ht_new_sized bs) = Some N"
    and h: "t1 = t\<lparr>base_size := base_size N, count := count N,
                 size_ht := size_ht N, items := items N\<rparr>"
    unfolding ht_resize_with_def by (auto split: Option.bind_splits)
  from h have t1: "t1 = N" by simp
  from rebuild_loop [where ins = ins, OF ins inv table_inv_new f]
  have invN: "table_inv N"
    and st: "\<And>j b. j < nat (size_ht t) \<Longrightarrow> item_at t (int j) = Some b \<Longrightarrow> live b \<Longrightarrow>
            stored N (item_key (the_item b)) (item_value (the_item b))"
    by blast+
  have "stored N k v" if "stored t k v" for k v
  proof -
    from that obtain j b where b: "item_at t j = Some b" "holds k b" "item_value (the_item b) = v"
      unfolding stored_def by blast
    from item_at_bounds [OF b(1)] inv have "nat j < nat (size_ht t)" "int (nat j) = j"
      by (simp_all add: table_inv_def)
    with st [of "nat j" b] b show ?thesis by (simp add: holds_def live_def)
  qed
  with invN t1 show ?thesis by simp
qed

lemma ht_insert_correct:
  assumes "ht_insert t k v = Some t'" "table_inv t"
  shows "table_inv t' \<and> stored t' k v \<and> (\<forall>k2 v2. k2 \<noteq> k \<and> stored t k2 v2 \<longrightarrow> stored t' k2 v2)"
proof -
  have "table_inv t \<longrightarrow>
      table_inv t' \<and> stored t' k v \<and> (\<forall>k2 v2. k2 \<noteq> k \<and> stored t k2 v2 \<longrightarrow> stored t' k2 v2)"
    using assms(1)
  proof (rule ht_insert.raw_induct [where P = "\<lambda>t k v t'. table_inv t \<longrightarrow>
      table_inv t' \<and> stored t' k v \<and> (\<forall>k2 v2. k2 \<noteq> k \<and> stored t k2 v2 \<longrightarrow> stored t' k2 v2)",
      rotated], goal_cases)
    case (1 ins t k v t')
    show ?case
    proof
      assume inv: "table_inv t"
      from 1(2) obtain load t1 index cur where
        r: "(if (70::int) < load then Option.bind (c_int (base_size t * 2)) (ht_resize_with ins t)
             else Some t) = Some t1"
        and g: "ht_get_hash k (size_ht t1) 0 = Some index"
        and it: "item_at t1 index = Some cur"
        and l: "ht_insert_loop t1 (Item k v) k index cur 1 = Some t'"
        unfolding bind_eq_Some_conv ht_new_item_def by auto
      have t1: "table_inv t1 \<and> (\<forall>k v. stored t k v \<longrightarrow> stored t1 k v)"
      proof (cases "70 < load")
        case False
        with r inv show ?thesis by simp
      next
        case True
        with r obtain ns where ns: "ht_resize_with ins t ns = Some t1"
          by (auto split: Option.bind_splits)
        show ?thesis
        proof (rule ht_resize_with_correct [where ins = ins, OF _ inv ns])
          fix N k v N'
          assume "ins N k v = Some N'" "table_inv N"
          with 1(1) show "table_inv N' \<and> stored N' k v
              \<and> (\<forall>k2 v2. k2 \<noteq> k \<and> stored N k2 v2 \<longrightarrow> stored N' k2 v2)"
            by simp
        qed
      qed
      have "\<exists>n j. reach t1 k n j \<and> placed t1 (Item k v) k j t'"
      proof (rule ht_insert_loop_reach [OF l])
        show "(1::int) \<le> 1" by simp
        show "1 \<le> INT_MAX" by (simp add: INT_MAX_def)
        show "ht_get_hash (item_key (Item k v)) (size_ht t1) (1 - 1) = Some index" using g by simp
        show "item_at t1 index = Some cur" by (rule it)
        show "item_key (Item k v) = k" by simp
        show "\<forall>l. 0 \<le> l \<and> l < (1::int) - 1 \<longrightarrow>
            (\<exists>b. probe t1 k l = Some b \<and> b \<noteq> NULL \<and> \<not> holds k b)" by auto
      qed
      then obtain n j where rj: "reach t1 k n j" and p: "placed t1 (Item k v) k j t'" by blast
      have "table_inv t'"
      proof (rule table_inv_placed [where item = "Item k v"])
        show "table_inv t1" using t1 by simp
        show "reach t1 k n j" by (rule rj)
        show "placed t1 (Item k v) k j t'" by (rule p)
      qed simp
      moreover from p have "stored t' k v" by (rule stored_placed_new)
      moreover have "stored t' k2 v2" if "k2 \<noteq> k" "stored t k2 v2" for k2 v2
        using p that(1) by (rule stored_placed_other) (use t1 that(2) in blast)
      ultimately show "table_inv t' \<and> stored t' k v
          \<and> (\<forall>k2 v2. k2 \<noteq> k \<and> stored t k2 v2 \<longrightarrow> stored t' k2 v2)" by blast
    qed
  qed
  with assms(2) show ?thesis by simp
qed


lemma table_inv_deleted:
  assumes "table_inv t" "size_ht t' = size_ht t" "length (items t') = length (items t)"
    and "\<forall>j < length (items t). items t' ! j = items t ! j
                \<or> (holds key (items t ! j) \<and> items t' ! j = HT_DELETED_ITEM)"
  shows "table_inv t'"
proof -
  have nth: "items t' ! j = items t ! j \<or> (holds key (items t ! j) \<and> items t' ! j = HT_DELETED_ITEM)"
    if "j < length (items t)" for j
    using that assms(4) by blast
  have at: "\<exists>b. item_at t i = Some b \<and> (b' = b \<or> (holds key b \<and> b' = HT_DELETED_ITEM))"
    if "item_at t' i = Some b'" for i b'
  proof -
    from item_at_bounds [OF that] assms(3) have b: "0 \<le> i" "nat i < length (items t)"
      "items t' ! nat i = b'" by simp_all
    then have "item_at t i = Some (items t ! nat i)" by (simp add: item_at_def)
    with nth [OF b(2)] b(3) show ?thesis by auto
  qed
  have at': "\<exists>b'. item_at t' i = Some b' \<and> (b' = b \<or> (holds key b \<and> b' = HT_DELETED_ITEM))"
    if "item_at t i = Some b" for i b
  proof -
    from item_at_bounds [OF that] have b: "0 \<le> i" "nat i < length (items t)"
      "items t ! nat i = b" by simp_all
    then have "item_at t' i = Some (items t' ! nat i)" using assms(3) by (simp add: item_at_def)
    with nth [OF b(2)] b(3) show ?thesis by auto
  qed
  have pr: "\<exists>b'. probe t' k l = Some b' \<and> b' \<noteq> NULL \<and> \<not> holds k b'"
    if "probe t k l = Some b" "b \<noteq> NULL" "\<not> holds k b" for k l b
  proof -
    from that(1) obtain idx where g: "ht_get_hash k (size_ht t) l = Some idx"
      and it: "item_at t idx = Some b"
      by (auto simp: probe_def split: Option.bind_splits)
    from at' [OF it] obtain b' where "item_at t' idx = Some b'"
      "b' = b \<or> (holds key b \<and> b' = HT_DELETED_ITEM)" by blast
    with g that(2,3) show ?thesis by (auto simp: probe_def assms(2) holds_def)
  qed
  have rc: "reach t' k n j" if "reach t k n j" for k n j
    using that pr unfolding reach_def assms(2) by blast
  show ?thesis
    unfolding table_inv_def
  proof (intro conjI allI impI)
    show "length (items t') = nat (size_ht t')" using assms(1-3) by (simp add: table_inv_def)
  next
    fix j b'
    assume a: "item_at t' j = Some b' \<and> live b'"
    with at [of j b'] have "item_at t j = Some b'" by (auto simp: live_def)
    with a assms(1) obtain n where "reach t (item_key (the_item b')) n j"
      unfolding table_inv_def by blast
    then have "reach t' (item_key (the_item b')) n j" by (rule rc)
    then show "\<exists>n. reach t' (item_key (the_item b')) n j" ..
  qed
qed

lemma item_at_count: "item_at (t\<lparr>count := c\<rparr>) = item_at t"
  by (rule ext) (simp add: item_at_def)

lemma table_inv_count: "table_inv (t\<lparr>count := c\<rparr>) = table_inv t"
  by (simp add: table_inv_def reach_def probe_def item_at_count)

lemma table_inv_delete:
  assumes "ht_delete t key = Some t'" "table_inv t"
  shows "table_inv t'"
proof -
  from assms(1) obtain load t1 index item t2 c where
    r: "(if load < (10::int) then ht_resize_down t else Some t) = Some t1"
    and it: "item_at t1 index = Some item"
    and d: "ht_delete_loop t1 key index item 1 = Some t2"
    and h: "t' = t2\<lparr>count := c\<rparr>"
    unfolding ht_delete_def by (auto split: Option.bind_splits)
  have "table_inv t1"
  proof (cases "load < 10")
    case False
    with r assms(2) show ?thesis by simp
  next
    case True
    with r obtain ns where ns: "ht_resize_with ht_insert t ns = Some t1"
      by (auto simp: ht_resize_down_def ht_resize_def split: Option.bind_splits)
    have "table_inv t1 \<and> (\<forall>k v. stored t k v \<longrightarrow> stored t1 k v)"
    proof (rule ht_resize_with_correct [where ins = ht_insert, OF _ assms(2) ns])
      fix N k v N'
      assume "ht_insert N k v = Some N'" "table_inv N"
      then show "table_inv N' \<and> stored N' k v
              \<and> (\<forall>k2 v2. k2 \<noteq> k \<and> stored N k2 v2 \<longrightarrow> stored N' k2 v2)"
        by (rule ht_insert_correct)
    qed
    then show ?thesis by simp
  qed
  moreover from ht_delete_loop_result [OF d it] have
    "size_ht t2 = size_ht t1" "length (items t2) = length (items t1)"
    "\<forall>j < length (items t1). items t2 ! j = items t1 ! j
                \<or> (holds key (items t1 ! j) \<and> items t2 ! j = HT_DELETED_ITEM)"
    by simp_all
  ultimately have "table_inv t2" by (rule table_inv_deleted)
  with h show ?thesis by (simp add: table_inv_count)
qed

lemma table_inv_run:
  assumes "ht_run ops = Some t"
  shows "table_inv t"
proof -
  have step: "table_inv s'" if "ht_step x s = Some s'" "table_inv s" for x s s'
    using that by (cases x) (auto dest: ht_insert_correct table_inv_delete ht_search_same)
  have "table_inv ht_new" by (simp add: ht_new_def table_inv_new)
  with assms show ?thesis
    unfolding ht_run_def by (rule ofold_preserves [where Q = table_inv, OF step, rotated 2])
qed

lemma found_stored:
  assumes "ht_search t k = Some (Some v, t')"
  shows "stored t k v"
proof -
  from assms obtain index item where
    it: "item_at t index = Some item"
    and s: "ht_search_loop t k item 1 = Some (Some v, t')"
    unfolding ht_search_def by (auto split: Option.bind_splits)
  from ht_insert_loop_overwrites [OF s _ it, of v v] show ?thesis
    unfolding stored_def by auto
qed

lemma ht_resize_keeps_found:
  assumes "table_inv t" "ht_resize t bs = Some t1" "ht_search t k = Some (Some v, t)"
  shows "ht_search t1 k = Some (Some v, t1)"
proof -
  have "table_inv t1 \<and> (\<forall>k v. stored t k v \<longrightarrow> stored t1 k v)"
  proof (rule ht_resize_with_correct [where ins = ht_insert, OF _ assms(1)])
    fix N k v N'
    assume "ht_insert N k v = Some N'" "table_inv N"
    then show "table_inv N' \<and> stored N' k v
              \<and> (\<forall>k2 v2. k2 \<noteq> k \<and> stored N k2 v2 \<longrightarrow> stored N' k2 v2)"
      by (rule ht_insert_correct)
  next
    show "ht_resize_with ht_insert t bs = Some t1" using assms(2) by (simp add: ht_resize_def)
  qed
  with found_stored [OF assms(3)] show ?thesis by (auto intro: stored_found)
qed

section \<open>Inserting a key that is in the table\<close>

lemma ht_resize_correct:
  assumes "table_inv t" "ht_resize t bs = Some t1"
  shows "table_inv t1 \<and> (\<forall>k v. stored t k v \<longrightarrow> stored t1 k v)"
proof (rule ht_resize_with_correct [where ins = ht_insert, OF _ assms(1)])
  fix N k v N'
  assume "ht_insert N k v = Some N'" "table_inv N"
  then show "table_inv N' \<and> stored N' k v
              \<and> (\<forall>k2 v2. k2 \<noteq> k \<and> stored N k2 v2 \<longrightarrow> stored N' k2 v2)"
    by (rule ht_insert_correct)
next
  show "ht_resize_with ht_insert t bs = Some t1" using assms(2) by (simp add: ht_resize_def)
qed

lemma holds_value_eq:
  "holds key b \<and> item_value (the_item b) = v \<longleftrightarrow> b = Ptr (Item key v)"
  by (cases b) (auto simp: holds_def intro: ht_item.expand)

lemma live_count_overwrite:
  assumes "item_at t j = Some (Ptr x)"
  shows "live_count (set_item t j (Ptr y)) = live_count t"
proof -
  from item_at_bounds [OF assms] have "nat j < length (items t)" "items t ! nat j = Ptr x"
    by simp_all
  then have "length (filter live ((items t)[nat j := Ptr y])) = length (filter live (items t))"
    by (intro filter_live_same) (simp_all add: live_def)
  then show ?thesis by (simp add: live_count_def)
qed

lemma ht_insert_live:
  assumes "table_inv ht1" "stored ht1 key v1"
    and "ht_load ht = Some load" "(if 70 < load then ht_resize_up ht else Some ht) = Some ht1"
  shows "\<exists>j. item_at ht1 j = Some (Ptr (Item key v1))
           \<and> ht_insert ht key v2 = Some (set_item ht1 j (Ptr (Item key v2)))"
proof -
  from stored_found [OF assms(1,2)] obtain index item where
    g: "ht_get_hash key (size_ht ht1) 0 = Some index"
    and it: "item_at ht1 index = Some item"
    and s: "ht_search_loop ht1 key item 1 = Some (Some v1, ht1)"
    unfolding ht_search_def by (auto split: Option.bind_splits)
  from ht_insert_loop_overwrites [OF s _ it, of v1 v2] obtain j b where
    jb: "item_at ht1 j = Some b" "holds key b \<and> item_value (the_item b) = v1"
    and l: "ht_insert_loop ht1 (Item key v2) key index item 1
                = Some (set_item ht1 j (Ptr (Item key v2)))"
    by auto
  from jb have "item_at ht1 j = Some (Ptr (Item key v1))" by (simp add: holds_value_eq)
  moreover from assms(3,4) g it l have "ht_insert ht key v2 = Some (set_item ht1 j (Ptr (Item key v2)))"
    by (subst ht_insert_unfold) (simp add: ht_new_item_def)
  ultimately show ?thesis by blast
qed

text \<open>
  C2 (as amended). Let the table \<open>ht\<close> be reached through the interface and let a bucket
  of it hold the key with the value \<open>v1\<close>. \<^verbatim>\<open>ht_insert\<close> of the key with \<open>v2\<close> has a
  result exactly when its resize-up step has one (the step runs when the load is above
  70 and is the identity otherwise): the table \<open>ht1\<close> that this step leaves still holds
  \<open>(key, v1)\<close> in a bucket, and the result is \<open>ht1\<close> with the item \<open>(key, v2)\<close> written to
  that bucket: the old item is destroyed, and every other bucket and \<open>count\<close> are those
  of \<open>ht1\<close>. A search for
  the key then returns \<open>v2\<close>. Without a resize-up \<open>count\<close> is the one of \<open>ht\<close>; after a
  resize-up it is the number of live entries.
\<close>

theorem ht_insert_overwrites:
  assumes "ht_run ops = Some ht" "stored ht key v1" "ht_load ht = Some load"
  shows "(ht_insert ht key v2 = Some ht' \<longleftrightarrow>
            (\<exists>ht1 j. (if 70 < load then ht_resize_up ht else Some ht) = Some ht1
               \<and> item_at ht1 j = Some (Ptr (Item key v1))
               \<and> ht' = set_item ht1 j (Ptr (Item key v2))))
         \<and> (\<forall>ht1. (if 70 < load then ht_resize_up ht else Some ht) = Some ht1 \<longrightarrow>
              (\<exists>j. item_at ht1 j = Some (Ptr (Item key v1))))
         \<and> (ht_insert ht key v2 = Some ht' \<longrightarrow>
              ht_search ht' key = Some (Some v2, ht')
              \<and> (load \<le> 70 \<longrightarrow> count ht' = count ht)
              \<and> (70 < load \<longrightarrow> count ht' = live_count ht'))"
proof -
  have inv: "table_inv ht" using assms(1) by (rule table_inv_run)
  have sinv: "size_inv ht" using assms(1) by (rule size_inv_run)
  have step: "table_inv ht1 \<and> stored ht1 key v1 \<and> (70 < load \<longrightarrow> count ht1 = live_count ht1)
      \<and> (load \<le> 70 \<longrightarrow> ht1 = ht)"
    if r: "(if 70 < load then ht_resize_up ht else Some ht) = Some ht1" for ht1
  proof (cases "70 < load")
    case False
    with r inv assms(2) show ?thesis by simp
  next
    case True
    with r obtain ns where ns: "c_int (base_size ht * 2) = Some ns" "ht_resize ht ns = Some ht1"
      by (auto simp: ht_resize_up_def split: Option.bind_splits)
    from ns(1) sinv have "\<not> ns < HT_INITIAL_BASE_SIZE"
      by (auto simp: size_inv_def HT_INITIAL_BASE_SIZE_def dest!: c_int_Some)
    with ns(2) have "count ht1 = live_count ht1" by (rule ht_resize_live_count)
    with ht_resize_correct [OF inv ns(2)] assms(2) True show ?thesis by simp
  qed
  have ins: "\<exists>j. item_at ht1 j = Some (Ptr (Item key v1))
           \<and> ht_insert ht key v2 = Some (set_item ht1 j (Ptr (Item key v2)))"
    if r: "(if 70 < load then ht_resize_up ht else Some ht) = Some ht1" for ht1
    using step [OF r] assms(3) r by (intro ht_insert_live) simp_all
  have fwd: "\<exists>ht1 j. (if 70 < load then ht_resize_up ht else Some ht) = Some ht1
               \<and> item_at ht1 j = Some (Ptr (Item key v1))
               \<and> ht' = set_item ht1 j (Ptr (Item key v2))"
    if i: "ht_insert ht key v2 = Some ht'"
  proof -
    from i assms(3) obtain ht1 where r: "(if 70 < load then ht_resize_up ht else Some ht) = Some ht1"
      by (subst (asm) ht_insert_unfold) (auto split: Option.bind_splits)
    from ins [OF r] i r show ?thesis by auto
  qed
  have bwd: "ht_insert ht key v2 = Some ht'"
    if "\<exists>ht1 j. (if 70 < load then ht_resize_up ht else Some ht) = Some ht1
               \<and> item_at ht1 j = Some (Ptr (Item key v1))
               \<and> ht' = set_item ht1 j (Ptr (Item key v2))"
  proof -
    from that obtain ht1 j where r: "(if 70 < load then ht_resize_up ht else Some ht) = Some ht1"
      and j: "item_at ht1 j = Some (Ptr (Item key v1))"
      and h: "ht' = set_item ht1 j (Ptr (Item key v2))" by blast
    from ins [OF r] obtain j' where j': "item_at ht1 j' = Some (Ptr (Item key v1))"
      "ht_insert ht key v2 = Some (set_item ht1 j' (Ptr (Item key v2)))" by blast
    from step [OF r] have "table_inv ht1" by simp
    then have "j = j'"
      by (rule table_inv_unique [OF _ j _ j'(1)]) (simp_all add: holds_def)
    with j'(2) h show ?thesis by simp
  qed
  have props: "ht_search ht' key = Some (Some v2, ht')
              \<and> (load \<le> 70 \<longrightarrow> count ht' = count ht)
              \<and> (70 < load \<longrightarrow> count ht' = live_count ht')"
    if i: "ht_insert ht key v2 = Some ht'"
  proof -
    from fwd [OF i] obtain ht1 j where r: "(if 70 < load then ht_resize_up ht else Some ht) = Some ht1"
      and j: "item_at ht1 j = Some (Ptr (Item key v1))"
      and h: "ht' = set_item ht1 j (Ptr (Item key v2))" by blast
    from h have c: "count ht' = count ht1" by simp
    from h j have lc: "live_count ht' = live_count ht1" by (simp add: live_count_overwrite)
    from step [OF r] c lc ht_search_after_insert [OF i] show ?thesis by auto
  qed
  have kept: "\<exists>j. item_at ht1 j = Some (Ptr (Item key v1))"
    if r: "(if 70 < load then ht_resize_up ht else Some ht) = Some ht1" for ht1
    using ins [OF r] by blast
  from fwd bwd props kept show ?thesis by blast
qed

text \<open>
  After the inserts of \<^verbatim>\<open>"cat"\<close> and \<^verbatim>\<open>"dog"\<close>, a second insert of \<^verbatim>\<open>"dog"\<close> overwrites
  bucket 29.
\<close>

theorem ht_insert_overwrites_witness:
  "\<exists>T T'. ht_run [Insert ''cat'' ''feline'', Insert ''dog'' ''canine''] = Some T
     \<and> stored T ''dog'' ''canine'' \<and> ht_load T = Some 3
     \<and> item_at T 29 = Some (Ptr (Item ''dog'' ''canine''))
     \<and> ht_insert T ''dog'' ''wolf'' = Some T'
     \<and> T' = set_item T 29 (Ptr (Item ''dog'' ''wolf''))
     \<and> ht_search T' ''dog'' = Some (Some ''wolf'', T') \<and> count T' = count T"
proof -
  let ?ops = "[Insert ''cat'' ''feline'', Insert ''dog'' ''canine'']"
  have 1: "map_option (\<lambda>t. (ht_load t, item_at t 29)) (ht_run ?ops)
      = Some (Some 3, Some (Ptr (Item ''dog'' ''canine'')))" by code_simp
  then obtain T where T: "ht_run ?ops = Some T" "ht_load T = Some 3"
    "item_at T 29 = Some (Ptr (Item ''dog'' ''canine''))" by auto
  from T(3) have s: "stored T ''dog'' ''canine''"
    unfolding stored_def holds_def by (intro exI [of _ 29] exI [of _ "Ptr (Item ''dog'' ''canine'')"]) simp
  define T' where "T' = set_item T 29 (Ptr (Item ''dog'' ''wolf''))"
  from ht_insert_overwrites [OF T(1) s T(2), of "''wolf''" T'] T(3)
  have "ht_insert T ''dog'' ''wolf'' = Some T'"
    "ht_search T' ''dog'' = Some (Some ''wolf'', T') \<and> count T' = count T"
    unfolding T'_def by auto
  with T s show ?thesis unfolding T'_def by blast
qed

text \<open>
  The claim as stated fails when the insert resizes a table whose \<open>count\<close> is out of step:
  38 inserts, a delete of an absent key and one more insert give 39 live entries with
  \<open>count = 38\<close> (load 71); inserting the live key \<^verbatim>\<open>"A"\<close> again rebuilds the table and
  leaves \<open>count = 39\<close>.
\<close>

theorem ht_insert_count_counterexample:
  "\<exists>T T'. ht_run (map (\<lambda>k. Insert k ''v'') (take 38 keys39) @ [Delete ''zz'', Insert ''n'' ''v'']) = Some T
     \<and> ht_search T ''A'' = Some (Some ''v'', T)
     \<and> ht_insert T ''A'' ''w'' = Some T' \<and> count T = 38 \<and> count T' = 39"
proof -
  let ?ops = "map (\<lambda>k. Insert k ''v'') (take 38 keys39) @ [Delete ''zz'', Insert ''n'' ''v'']"
  have 1: "map_option (\<lambda>t. (count t, map_option fst (ht_search t ''A''))) (ht_run ?ops)
             = Some (38, Some (Some ''v''))" by code_simp
  have 2: "map_option count (ht_run (?ops @ [Insert ''A'' ''w''])) = Some 39" by code_simp
  from 1 obtain T where T: "ht_run ?ops = Some T" "count T = 38"
    "map_option fst (ht_search T ''A'') = Some (Some ''v'')" by auto
  from T(3) obtain r where r: "ht_search T ''A'' = Some r" "fst r = Some ''v''" by auto
  with ht_search_same [OF r(1)] have s: "ht_search T ''A'' = Some (Some ''v'', T)"
    by (cases r) simp
  from 2 T(1) obtain T' where "ht_insert T ''A'' ''w'' = Some T'" "count T' = 39"
    unfolding ht_run_snoc by auto
  with T s show ?thesis by blast
qed

section \<open>The count after a delete\<close>

text \<open>
  The loop of \<^verbatim>\<open>ht_delete\<close> turns buckets into tombstones as it goes, which leaves the
  null buckets where they were: it returns exactly when the probe sequence of the key
  reaches a null bucket.
\<close>

lemma probe_tombstone:
  assumes "item_at t index = Some item" "item \<noteq> NULL"
  shows "probe (set_item t index HT_DELETED_ITEM) key l = Some NULL
           \<longleftrightarrow> probe t key l = Some NULL"
    and "(\<exists>b. probe (set_item t index HT_DELETED_ITEM) key l = Some b \<and> b \<noteq> NULL)
           \<longleftrightarrow> (\<exists>b. probe t key l = Some b \<and> b \<noteq> NULL)"
  using assms
  by (auto simp: probe_def item_at_set_item split: Option.bind_splits if_splits)

lemma ht_delete_loop_null:
  assumes "ht_delete_loop ht key index item i = Some ht'"
    and "1 \<le> i" "i \<le> INT_MAX" "ht_get_hash key (size_ht ht) (i - 1) = Some index"
    and "item_at ht index = Some item"
  shows "\<exists>j. i - 1 \<le> j \<and> j < INT_MAX \<and> probe ht key j = Some NULL
           \<and> (\<forall>l. i - 1 \<le> l \<and> l < j \<longrightarrow> (\<exists>b. probe ht key l = Some b \<and> b \<noteq> NULL))"
proof -
  have "1 \<le> i \<and> i \<le> INT_MAX \<and> ht_get_hash key (size_ht ht) (i - 1) = Some index
      \<and> item_at ht index = Some item \<longrightarrow>
      (\<exists>j. i - 1 \<le> j \<and> j < INT_MAX \<and> probe ht key j = Some NULL
           \<and> (\<forall>l. i - 1 \<le> l \<and> l < j \<longrightarrow> (\<exists>b. probe ht key l = Some b \<and> b \<noteq> NULL)))"
    using assms(1)
  proof (rule ht_delete_loop.raw_induct [where P = "\<lambda>ht key index item i ht'.
      1 \<le> i \<and> i \<le> INT_MAX \<and> ht_get_hash key (size_ht ht) (i - 1) = Some index
      \<and> item_at ht index = Some item \<longrightarrow>
      (\<exists>j. i - 1 \<le> j \<and> j < INT_MAX \<and> probe ht key j = Some NULL
           \<and> (\<forall>l. i - 1 \<le> l \<and> l < j \<longrightarrow> (\<exists>b. probe ht key l = Some b \<and> b \<noteq> NULL)))",
      rotated], goal_cases)
    case (1 del ht key index item i ht')
    show ?case
    proof (intro impI)
      assume a: "1 \<le> i \<and> i \<le> INT_MAX \<and> ht_get_hash key (size_ht ht) (i - 1) = Some index
        \<and> item_at ht index = Some item"
      then have here: "probe ht key (i - 1) = Some item" by (simp add: probe_def)
      show "\<exists>j. i - 1 \<le> j \<and> j < INT_MAX \<and> probe ht key j = Some NULL
           \<and> (\<forall>l. i - 1 \<le> l \<and> l < j \<longrightarrow> (\<exists>b. probe ht key l = Some b \<and> b \<noteq> NULL))"
      proof (cases "item = NULL")
        case True
        with here a have "i - 1 \<le> i - 1 \<and> i - 1 < INT_MAX \<and> probe ht key (i - 1) = Some NULL
           \<and> (\<forall>l. i - 1 \<le> l \<and> l < i - 1 \<longrightarrow> (\<exists>b. probe ht key l = Some b \<and> b \<noteq> NULL))"
          by auto
        then show ?thesis by blast
      next
        case False
        define ht1 where "ht1 = (if item \<noteq> HT_DELETED_ITEM \<and> item_key (the_item item) = key
                     then set_item ht index HT_DELETED_ITEM else ht)"
        from 1(2) False obtain index' item' i' where
          g: "ht_get_hash key (size_ht ht1) i = Some index'"
          and it: "item_at ht1 index' = Some item'"
          and i': "c_int (i + 1) = Some i'"
          and rec: "del ht1 key index' item' i' = Some ht'"
          unfolding ht1_def
          by (cases "item = HT_DELETED_ITEM"; cases "item_key (the_item item) = key")
            (auto split: Option.bind_splits)
        from i' have i'_eq: "i' = i + 1" by (rule c_int_Some)
        from i' have i'_le: "i' \<le> INT_MAX" by (simp add: c_int_def split: if_splits)
        from a False have null_eq: "probe ht1 key l = Some NULL \<longleftrightarrow> probe ht key l = Some NULL" for l
          unfolding ht1_def by (simp add: probe_tombstone)
        from a False have nn_eq: "(\<exists>b. probe ht1 key l = Some b \<and> b \<noteq> NULL)
             \<longleftrightarrow> (\<exists>b. probe ht key l = Some b \<and> b \<noteq> NULL)" for l
          unfolding ht1_def by (simp add: probe_tombstone)
        from 1(1) [OF rec] a g it i'_eq i'_le obtain j where
          j: "i \<le> j" "j < INT_MAX" "probe ht1 key j = Some NULL"
          "\<forall>l. i \<le> l \<and> l < j \<longrightarrow> (\<exists>b. probe ht1 key l = Some b \<and> b \<noteq> NULL)"
          by auto
        have "\<exists>b. probe ht key l = Some b \<and> b \<noteq> NULL" if l: "i - 1 \<le> l \<and> l < j" for l
        proof (cases "l = i - 1")
          case True
          with here False show ?thesis by simp
        next
          case False
          with l have "i \<le> l \<and> l < j" by simp
          with j(4) nn_eq show ?thesis by blast
        qed
        moreover from j(1) have "i - 1 \<le> j" by simp
        moreover from j(3) null_eq have "probe ht key j = Some NULL" by simp
        ultimately show ?thesis using j(2) by blast
      qed
    qed
  qed
  with assms show ?thesis by blast
qed

lemma ht_delete_loop_reaches:
  assumes "n = nat (j - (i - 1))" "1 \<le> i" "i - 1 \<le> j" "j < INT_MAX"
    and "ht_get_hash key (size_ht ht) (i - 1) = Some index"
    and "item_at ht index = Some item"
    and "\<forall>l. i - 1 \<le> l \<and> l < j \<longrightarrow> (\<exists>b. probe ht key l = Some b \<and> b \<noteq> NULL)"
    and "probe ht key j = Some NULL"
  shows "\<exists>ht'. ht_delete_loop ht key index item i = Some ht'"
  using assms
proof (induction n arbitrary: ht i index item)
  case 0
  then have "j = i - 1" by simp
  with 0 have "item = NULL" by (simp add: probe_def)
  then show ?case by (subst ht_delete_loop.simps) simp
next
  case (Suc n)
  then have lt: "i - 1 < j" by simp
  with Suc.prems obtain b where b: "probe ht key (i - 1) = Some b" "b \<noteq> NULL"
    by (metis order_refl)
  with Suc.prems have item: "item = b" by (simp add: probe_def)
  define ht1 where "ht1 = (if item \<noteq> HT_DELETED_ITEM \<and> item_key (the_item item) = key
                     then set_item ht index HT_DELETED_ITEM else ht)"
  from Suc.prems item b have null_eq: "probe ht1 key l = Some NULL \<longleftrightarrow> probe ht key l = Some NULL" for l
    unfolding ht1_def by (simp add: probe_tombstone)
  from Suc.prems item b have nn_eq: "(\<exists>b. probe ht1 key l = Some b \<and> b \<noteq> NULL)
             \<longleftrightarrow> (\<exists>b. probe ht key l = Some b \<and> b \<noteq> NULL)" for l
    unfolding ht1_def by (simp add: probe_tombstone)
  have sz: "size_ht ht1 = size_ht ht" by (simp add: ht1_def)
  have "\<exists>b'. probe ht1 key i = Some b'"
  proof (cases "i = j")
    case True
    from Suc.prems null_eq [of j] have "probe ht1 key j = Some NULL" by simp
    with True show ?thesis by simp
  next
    case False
    with lt have "i - 1 \<le> i \<and> i < j" by simp
    with Suc.prems have "\<exists>b. probe ht key i = Some b \<and> b \<noteq> NULL" by blast
    with nn_eq show ?thesis by blast
  qed
  then obtain index' item' where
    g: "ht_get_hash key (size_ht ht1) i = Some index'"
    and it: "item_at ht1 index' = Some item'"
    by (auto simp: probe_def split: Option.bind_splits)
  from lt Suc.prems have ci: "c_int (i + 1) = Some (i + 1)"
    by (simp add: c_int_def INT_MAX_def INT_MIN_def)
  have "\<exists>ht'. ht_delete_loop ht1 key index' item' (i + 1) = Some ht'"
  proof (rule Suc.IH)
    show "n = nat (j - (i + 1 - 1))" using Suc.prems by simp
    show "\<forall>l. i + 1 - 1 \<le> l \<and> l < j \<longrightarrow> (\<exists>b. probe ht1 key l = Some b \<and> b \<noteq> NULL)"
      using Suc.prems nn_eq by simp
    show "probe ht1 key j = Some NULL" using Suc.prems null_eq by simp
  qed (use Suc.prems lt g it in simp_all)
  then obtain ht' where rec: "ht_delete_loop ht1 key index' item' (i + 1) = Some ht'" by blast
  have "ht_delete_loop ht key index item i = Some ht'"
    using item b g it ci rec unfolding ht1_def
    by (subst ht_delete_loop.simps)
      (cases "item = HT_DELETED_ITEM"; cases "item_key (the_item item) = key"; simp)
  then show ?case by blast
qed

text \<open>
  C4 (as amended). Let \<open>ht1\<close> be the table as the resize-down step of \<^verbatim>\<open>ht_delete\<close>
  leaves it: \<open>ht\<close> itself when the load is at least 10 or \<open>base_size\<close> is below 100 (the
  halved base size is then below the minimum), and otherwise the rebuilt table, whose
  \<open>count\<close> is the number of its live entries. Whether or not a bucket holds the key,
  \<^verbatim>\<open>ht_delete\<close> returns exactly when the probe sequence of the key reaches a null
  bucket of \<open>ht1\<close>, and \<open>count\<close> is then one below the count of \<open>ht1\<close> (which is
  taken to be an \<^verbatim>\<open>int\<close>).
\<close>

theorem ht_delete_count:
  assumes "ht_load ht = Some load"
    and "(if load < 10 then ht_resize_down ht else Some ht) = Some ht1"
    and "INT_MIN \<le> count ht1 - 1" "count ht1 - 1 \<le> INT_MAX"
  shows "((\<exists>ht'. ht_delete ht key = Some ht') \<longleftrightarrow>
            (\<exists>j. 0 \<le> j \<and> j < INT_MAX \<and> probe ht1 key j = Some NULL \<and> probed ht1 key j))
         \<and> (\<forall>ht'. ht_delete ht key = Some ht' \<longrightarrow> count ht' = count ht1 - 1)
         \<and> (10 \<le> load \<or> base_size ht < 100 \<longrightarrow> ht1 = ht)
         \<and> (load < 10 \<and> 100 \<le> base_size ht \<longrightarrow> count ht1 = live_count ht1)"
proof (intro conjI iffI allI impI)
  assume "\<exists>ht'. ht_delete ht key = Some ht'"
  then obtain ht' where d: "ht_delete ht key = Some ht'" ..
  with assms(1,2) obtain index item ht2 where
    g: "ht_get_hash key (size_ht ht1) 0 = Some index"
    and it: "item_at ht1 index = Some item"
    and l: "ht_delete_loop ht1 key index item 1 = Some ht2"
    unfolding ht_delete_def by (auto split: Option.bind_splits)
  from ht_delete_loop_null [OF l] g it obtain j where
    "0 \<le> j" "j < INT_MAX" "probe ht1 key j = Some NULL"
    "\<forall>l. 0 \<le> l \<and> l < j \<longrightarrow> (\<exists>b. probe ht1 key l = Some b \<and> b \<noteq> NULL)"
    by (auto simp: INT_MAX_def)
  then show "\<exists>j. 0 \<le> j \<and> j < INT_MAX \<and> probe ht1 key j = Some NULL \<and> probed ht1 key j"
    unfolding probed_def by blast
next
  assume "\<exists>j. 0 \<le> j \<and> j < INT_MAX \<and> probe ht1 key j = Some NULL \<and> probed ht1 key j"
  then obtain j where j: "0 \<le> j" "j < INT_MAX" "probe ht1 key j = Some NULL" "probed ht1 key j"
    by blast
  have "\<exists>b. probe ht1 key 0 = Some b"
  proof (cases "j = 0")
    case True
    with j show ?thesis by simp
  next
    case False
    with j show ?thesis unfolding probed_def by (metis order_refl less_le)
  qed
  then obtain index item where
    g: "ht_get_hash key (size_ht ht1) 0 = Some index"
    and it: "item_at ht1 index = Some item"
    by (auto simp: probe_def split: Option.bind_splits)
  have "\<exists>ht2. ht_delete_loop ht1 key index item 1 = Some ht2"
  proof (rule ht_delete_loop_reaches [where j = j])
    show "nat (j - (1 - 1)) = nat (j - (1 - 1))" ..
    show "\<forall>l. 1 - 1 \<le> l \<and> l < j \<longrightarrow> (\<exists>b. probe ht1 key l = Some b \<and> b \<noteq> NULL)"
      using j(4) by (simp add: probed_def)
  qed (use j g it in simp_all)
  then obtain ht2 where l: "ht_delete_loop ht1 key index item 1 = Some ht2" ..
  from ht_delete_loop_fields [OF l] assms(3,4)
  have "c_int (count ht2 - 1) = Some (count ht2 - 1)" by (simp add: c_int_def)
  with assms(1,2) g it l show "\<exists>ht'. ht_delete ht key = Some ht'"
    unfolding ht_delete_def by simp
next
  fix ht'
  assume d: "ht_delete ht key = Some ht'"
  with assms(1,2) obtain index item ht2 c where
    l: "ht_delete_loop ht1 key index item 1 = Some ht2"
    and c: "c_int (count ht2 - 1) = Some c"
    and h: "ht' = ht2\<lparr>count := c\<rparr>"
    unfolding ht_delete_def by (auto split: Option.bind_splits)
  from c have "c = count ht2 - 1" by (rule c_int_Some)
  with h ht_delete_loop_fields [OF l] show "count ht' = count ht1 - 1" by simp
next
  assume "10 \<le> load \<or> base_size ht < 100"
  with assms(2) show "ht1 = ht"
    by (auto simp: ht_resize_down_small split: if_splits)
next
  assume a: "load < 10 \<and> 100 \<le> base_size ht"
  with assms(2) obtain q where q: "c_div (base_size ht) 2 = Some q" "ht_resize ht q = Some ht1"
    by (auto simp: ht_resize_down_def split: Option.bind_splits)
  from q(1) a have "\<not> q < HT_INITIAL_BASE_SIZE"
    by (auto simp: c_div_def HT_INITIAL_BASE_SIZE_def sgn_if split: if_splits)
  with q(2) show "count ht1 = live_count ht1" by (rule ht_resize_live_count)
qed

text \<open>
  The table holds \<^verbatim>\<open>"a"\<close> in bucket 44. The key \<^verbatim>\<open>","\<close> is absent; its probe sequence
  reads bucket 44, then the null bucket 36. The delete returns with \<open>count = 0\<close> and one
  live entry.
\<close>

theorem ht_delete_count_witness:
  "\<exists>T T'. ht_run [Insert ''a'' ''x''] = Some T
     \<and> ht_load T = Some 1
     \<and> probe T '','' 0 = Some (Ptr (Item ''a'' ''x''))
     \<and> probe T '','' 1 = Some NULL
     \<and> ht_delete T '','' = Some T'
     \<and> count T = 1 \<and> count T' = 0 \<and> live_count T' = 1"
proof -
  have 1: "map_option (\<lambda>t. (ht_load t, base_size t, count t, probe t '','' 0, probe t '','' 1,
              map_option live_count (ht_delete t '','')))
            (ht_run [Insert ''a'' ''x''])
      = Some (Some 1, 50, 1, Some (Ptr (Item ''a'' ''x'')), Some NULL, Some 1)" by code_simp
  then obtain T where T: "ht_run [Insert ''a'' ''x''] = Some T" "ht_load T = Some 1"
    "base_size T = 50" "count T = 1" "probe T '','' 0 = Some (Ptr (Item ''a'' ''x''))"
    "probe T '','' 1 = Some NULL" "map_option live_count (ht_delete T '','') = Some 1" by auto
  from T(7) obtain T' where d: "ht_delete T '','' = Some T'" "live_count T' = 1" by auto
  from T(3) have r: "(if (1::int) < 10 then ht_resize_down T else Some T) = Some T"
    by (simp add: ht_resize_down_small)
  from T(4) have c: "INT_MIN \<le> count T - 1" "count T - 1 \<le> INT_MAX"
    by (simp_all add: INT_MIN_def INT_MAX_def)
  from ht_delete_count [OF T(2) r c, of "'',''"] d(1) T(4) have "count T' = 0" by simp
  with T d show ?thesis by blast
qed

text \<open>
  The claim as stated fails once a resize-down rebuilds a table whose \<open>count\<close> is out of
  step: after 39 inserts (the last one resizes up to 101 buckets) and 29 deletes of an
  absent key, \<open>count\<close> is 10 with 39 live entries; the next delete finds a load of 9,
  rebuilds the table, which sets \<open>count\<close> to 39, and leaves 38, not 9.
\<close>

theorem ht_delete_count_counterexample:
  "\<exists>T T'. ht_run (map (\<lambda>k. Insert k ''v'') keys39 @ replicate 29 (Delete ''zz'')) = Some T
     \<and> ht_delete T ''zz'' = Some T' \<and> count T = 10 \<and> count T' = 38"
proof -
  let ?ops = "map (\<lambda>k. Insert k ''v'') keys39 @ replicate 29 (Delete ''zz'')"
  have 1: "map_option count (ht_run ?ops) = Some 10" by code_simp
  have 2: "map_option count (ht_run (?ops @ [Delete ''zz''])) = Some 38" by code_simp
  from 1 obtain T where T: "ht_run ?ops = Some T" "count T = 10" by auto
  from 2 T(1) obtain T' where "ht_delete T ''zz'' = Some T'" "count T' = 38"
    unfolding ht_run_snoc by auto
  with T show ?thesis by blast
qed

section \<open>Operations that are sure to return\<close>

text \<open>
  In a table of prime size the probe sequence of a key with a step that does not vanish
  reads every bucket within \<open>size\<close> attempts. So an insert returns when the table has a
  null bucket, and a resize returns when the old bucket array holds no tombstone and the
  new table is large enough for the rebuild not to resize in turn.
\<close>

lemma c_mod_less: "c_mod x m = Some y \<Longrightarrow> 0 < m \<Longrightarrow> y < m"
proof -
  assume a: "c_mod x m = Some y" "0 < m"
  show ?thesis
  proof (cases "0 \<le> x")
    case True
    with a have "y = x mod m \<or> y = 0" by (auto simp: c_mod_def sgn_if split: if_splits)
    with a(2) show ?thesis by auto
  next
    case False
    with a have y: "y = - (\<bar>x\<bar> mod m)" by (simp add: c_mod_def sgn_if split: if_splits)
    from a(2) have "0 \<le> \<bar>x\<bar> mod m" by (rule pos_mod_sign)
    with a(2) show ?thesis unfolding y by linarith
  qed
qed

lemma ht_hash_loop_less:
  "ht_hash_loop s a m h0 = Some h \<Longrightarrow> 0 < m \<Longrightarrow> h0 < m \<Longrightarrow> h < m"
proof (induction s arbitrary: h0)
  case Nil
  then show ?case by simp
next
  case (Cons c cs)
  from Cons.prems(1) obtain h' where "c_mod h' m = Some (h' :: int) \<or> True"
    and "\<exists>x. c_mod x m = Some h' \<and> ht_hash_loop cs a m h' = Some h"
    by (auto split: Option.bind_splits)
  then obtain x where x: "c_mod x m = Some h'" "ht_hash_loop cs a m h' = Some h" by blast
  from c_mod_less [OF x(1) Cons.prems(2)] have "h' < m" .
  with Cons.IH [OF x(2) Cons.prems(2)] show ?case by simp
qed

lemma ht_hash_less: "ht_hash s a m = Some h \<Longrightarrow> 0 < m \<Longrightarrow> h < m"
  unfolding ht_hash_def by (rule ht_hash_loop_less) simp_all

lemma good_key_hashes:
  assumes "good_key k m" "0 < m"
  obtains ha hb where "ht_hash k HT_PRIME_1 m = Some ha" "ht_hash k HT_PRIME_2 m = Some hb"
    "0 \<le> ha" "ha < m" "0 \<le> hb" "hb < m - 1"
proof -
  from assms(1) obtain ha hb where h: "ht_hash k HT_PRIME_1 m = Some ha"
    "ht_hash k HT_PRIME_2 m = Some hb" "0 \<le> ha" "0 \<le> hb" "hb + 1 < m"
    by (auto simp: good_key_def split: option.splits)
  from ht_hash_less [OF h(1) assms(2)] h that show ?thesis by simp
qed

text \<open>
  A key of at most eight characters with codes below 128 qualifies unless its second
  hash is \<open>m - 1\<close>.
\<close>

lemma good_key_short:
  assumes "0 < m" "m \<le> INT_MAX" "\<forall>c \<in> set s. 0 \<le> c_char c" "length s \<le> 8"
    and "poly_hash s HT_PRIME_2 mod m \<noteq> m - 1"
  shows "good_key s m"
proof -
  have pw: "a ^ (length s - 1) < 2 ^ 53" if "a = 131 \<or> a = 151" for a :: int
  proof -
    from assms(4) have "length s - 1 \<le> 7" by simp
    with that have "a ^ (length s - 1) \<le> a ^ 7" by (intro power_increasing) auto
    also from that have "a ^ 7 < 2 ^ 53" by auto
    finally show ?thesis .
  qed
  have a: "ht_hash s HT_PRIME_1 m = Some (poly_hash s HT_PRIME_1 mod m)"
  proof (rule ht_hash_exact [OF assms(1,2) _ assms(3)])
    show "HT_PRIME_1 ^ (length s - 1) < 2 ^ 53" unfolding HT_PRIME_1_def by (rule pw) simp
  qed (simp add: HT_PRIME_1_def)
  have b: "ht_hash s HT_PRIME_2 m = Some (poly_hash s HT_PRIME_2 mod m)"
  proof (rule ht_hash_exact [OF assms(1,2) _ assms(3)])
    show "HT_PRIME_2 ^ (length s - 1) < 2 ^ 53" unfolding HT_PRIME_2_def by (rule pw) simp
  qed (simp add: HT_PRIME_2_def)
  from assms(1) have "poly_hash s HT_PRIME_2 mod m < m" by (rule pos_mod_bound)
  with assms(5) have "poly_hash s HT_PRIME_2 mod m + 1 < m" by linarith
  with assms(1) show ?thesis by (simp add: good_key_def a b)
qed

lemma good_key_get_hash:
  assumes "good_key k m" "0 < m" "m * m \<le> INT_MAX" "0 \<le> i" "i < m"
  shows "\<exists>idx. ht_get_hash k m i = Some idx \<and> 0 \<le> idx \<and> idx < m"
proof -
  from assms(1,2) obtain ha hb where h: "ht_hash k HT_PRIME_1 m = Some ha"
    "ht_hash k HT_PRIME_2 m = Some hb" "0 \<le> ha" "ha < m" "0 \<le> hb" "hb < m - 1"
    by (rule good_key_hashes)
  from h(6) have "hb < m" by simp
  from ht_get_hash_value [OF assms(2,3) h(1,2,3,4,5) this assms(4,5)] assms(2)
  show ?thesis by simp
qed

lemma good_key_surj:
  assumes "good_key k m" "is_prime m" "m * m \<le> INT_MAX" "0 \<le> n" "n < m"
  shows "\<exists>i. 0 \<le> i \<and> i < m \<and> ht_get_hash k m i = Some n"
proof -
  from assms(2) have m: "0 < m" by (simp add: is_prime_def prime_nat_def)
  from assms(1) m obtain ha hb where h: "ht_hash k HT_PRIME_1 m = Some ha"
    "ht_hash k HT_PRIME_2 m = Some hb" "0 \<le> ha" "ha < m" "0 \<le> hb" "hb < m - 1"
    by (rule good_key_hashes)
  from h(6) have hb: "hb < m" by simp
  define f where "f i = (ha + i * (hb + 1)) mod m" for i
  have val: "ht_get_hash k m i = Some (f i)" if "0 \<le> i" "i < m" for i
    unfolding f_def using ht_get_hash_value [OF m assms(3) h(1,2,3,4,5) hb that] .
  have "inj_on f {0..<m}"
  proof (rule inj_onI)
    fix i j assume ij: "i \<in> {0..<m}" "j \<in> {0..<m}" "f i = f j"
    then have "ht_get_hash k m i = ht_get_hash k m j" by (simp add: val)
    with ij show "i = j"
      by (intro ht_get_hash_distinct [OF assms(2,3) h(1,2,3,4,5,6)]) simp_all
  qed
  moreover have "f ` {0..<m} \<subseteq> {0..<m}" using m by (auto simp: f_def)
  moreover have "finite {0..<m}" by simp
  ultimately have "f ` {0..<m} = {0..<m}" by (metis endo_inj_surj)
  moreover from assms(4,5) have "n \<in> {0..<m}" by simp
  ultimately have "n \<in> f ` {0..<m}" by simp
  then obtain i where "i \<in> {0..<m}" "f i = n" by auto
  with val show ?thesis by auto
qed

lemma probe_reaches_null:
  assumes "good_key k (size_ht t)" "is_prime (size_ht t)" "size_ht t * size_ht t \<le> INT_MAX"
    and "length (items t) = nat (size_ht t)" "NULL \<in> set (items t)"
  shows "\<exists>j. 0 \<le> j \<and> j < size_ht t \<and> probe t k j = Some NULL \<and> probed t k j"
proof -
  from assms(2) have m: "0 < size_ht t" by (simp add: is_prime_def prime_nat_def)
  have pr: "\<exists>b. probe t k i = Some b" if "0 \<le> i" "i < size_ht t" for i
  proof -
    from good_key_get_hash [OF assms(1) m assms(3) that] obtain idx where
      "ht_get_hash k (size_ht t) i = Some idx" "0 \<le> idx" "idx < size_ht t" by blast
    with assms(4) show ?thesis by (simp add: probe_def item_at_def)
  qed
  from assms(5) obtain n where n: "n < length (items t)" "items t ! n = NULL"
    by (auto simp: in_set_conv_nth)
  with assms(4) have "0 \<le> int n" "int n < size_ht t" by simp_all
  from good_key_surj [OF assms(1,2,3) this] obtain i where
    i: "0 \<le> i" "i < size_ht t" "ht_get_hash k (size_ht t) i = Some (int n)" by blast
  with n have pi: "probe t k i = Some NULL" by (simp add: probe_def item_at_def)
  define P where "P j = (probe t k (int j) = Some NULL)" for j
  from pi i(1) have "P (nat i)" by (simp add: P_def)
  then have P0: "P (LEAST j. P j)" and le: "(LEAST j. P j) \<le> nat i"
    by (rule LeastI, rule Least_le)
  define j0 where "j0 = (LEAST j. P j)"
  have "probed t k (int j0)"
    unfolding probed_def
  proof (intro allI impI)
    fix l assume l: "0 \<le> l \<and> l < int j0"
    from le i(1) have "int j0 \<le> i" by (simp add: j0_def)
    with l i(2) have "l < size_ht t" by linarith
    with l pr obtain b where b: "probe t k l = Some b" by blast
    have "b \<noteq> NULL"
    proof
      assume "b = NULL"
      with b l have "P (nat l)" by (simp add: P_def)
      moreover from l have "nat l < j0" by linarith
      ultimately show False unfolding j0_def by (metis not_less_Least)
    qed
    with b show "\<exists>b. probe t k l = Some b \<and> b \<noteq> NULL" by blast
  qed
  moreover from P0 have "probe t k (int j0) = Some NULL" by (simp add: P_def j0_def)
  moreover from le i(1,2) have "int j0 < size_ht t" unfolding j0_def by linarith
  ultimately show ?thesis by (intro exI [of _ "int j0"]) simp
qed

lemma ht_insert_defined:
  assumes "ht_load t = Some load" "(if 70 < load then ht_resize_up t else Some t) = Some t1"
    and "table_inv t1" "is_prime (size_ht t1)" "size_ht t1 * size_ht t1 \<le> INT_MAX"
    and "good_key k (size_ht t1)" "NULL \<in> set (items t1)"
    and "INT_MIN \<le> count t1 + 1" "count t1 < INT_MAX"
  shows "\<exists>t'. ht_insert t k v = Some t'"
proof (cases "\<exists>b \<in> set (items t1). holds k b")
  case True
  then obtain n where n: "n < length (items t1)" "holds k (items t1 ! n)"
    by (auto simp: in_set_conv_nth)
  then have "item_at t1 (int n) = Some (items t1 ! n)" by (simp add: item_at_def)
  with n(2) have "stored t1 k (item_value (the_item (items t1 ! n)))"
    unfolding stored_def by blast
  from ht_insert_live [OF assms(3) this assms(1,2)] show ?thesis by blast
next
  case False
  then have nh: "\<forall>b \<in> set (items t1). \<not> holds k b" by blast
  from assms(3) have len: "length (items t1) = nat (size_ht t1)" by (simp add: table_inv_def)
  from probe_reaches_null [OF assms(6,4,5) len assms(7)] obtain j where
    j: "0 \<le> j" "j < size_ht t1" "probe t1 k j = Some NULL" "probed t1 k j" by blast
  from assms(5) j(2) have jm: "j < INT_MAX"
  proof -
    from assms(4) have "0 < size_ht t1" by (simp add: is_prime_def prime_nat_def)
    then have "size_ht t1 \<le> size_ht t1 * size_ht t1" by simp
    with assms(5) j(2) show ?thesis by simp
  qed
  from j(3) obtain idx where gj: "ht_get_hash k (size_ht t1) j = Some idx"
    and itj: "item_at t1 idx = Some NULL"
    by (auto simp: probe_def split: Option.bind_splits)
  have "\<exists>b. probe t1 k 0 = Some b"
  proof (cases "j = 0")
    case True
    with j(3) show ?thesis by simp
  next
    case False
    with j(1,4) show ?thesis unfolding probed_def by force
  qed
  then obtain index cur where
    g: "ht_get_hash k (size_ht t1) 0 = Some index"
    and it: "item_at t1 index = Some cur"
    by (auto simp: probe_def split: Option.bind_splits)
  have "ht_insert_loop t1 (Item k v) k index cur 1
           = Some ((set_item t1 idx (Ptr (Item k v)))\<lparr>count := count t1 + 1\<rparr>)"
  proof (rule ht_insert_loop_reaches [where j = j and n = "nat j"])
    show "\<forall>l. 1 - 1 \<le> l \<and> l < j \<longrightarrow> (\<exists>b. probe t1 (item_key (Item k v)) l = Some b \<and> b \<noteq> NULL)"
      using j(4) by (simp add: probed_def)
  qed (use j jm g it gj itj nh assms in simp_all)
  with assms(1,2) g it show ?thesis
    by (subst ht_insert_unfold) (simp add: ht_new_item_def)
qed

lemma div_le_70:
  assumes "(x::int) < 71 * m" "0 < m"
  shows "x div m \<le> 70"
proof (rule ccontr)
  assume "\<not> x div m \<le> 70"
  then have "71 \<le> x div m" by simp
  with assms(2) have "m * 71 \<le> m * (x div m)" by (intro mult_left_mono) simp_all
  moreover have "m * (x div m) + x mod m = x" by simp
  moreover from assms(2) have "0 \<le> x mod m" by (rule pos_mod_sign)
  ultimately show False using assms(1) by linarith
qed

lemma ht_load_value:
  assumes "0 \<le> count t" "count t * 100 \<le> INT_MAX" "0 < size_ht t"
  shows "ht_load t = Some (count t * 100 div size_ht t)"
proof -
  let ?x = "count t * 100"
  from assms(1) have x: "0 \<le> ?x" by simp
  with assms(2) have 1: "c_int ?x = Some ?x" by (simp add: c_int_def INT_MIN_def)
  have 2: "c_div ?x (size_ht t) = Some (?x div size_ht t)"
  proof (cases "?x = 0")
    case True
    with assms(3) show ?thesis by (simp add: c_div_def)
  next
    case False
    with x have "0 < ?x" by linarith
    with assms(3) show ?thesis by (simp add: c_div_def)
  qed
  from x assms(3) have "0 \<le> ?x div size_ht t" by (simp add: pos_imp_zdiv_nonneg_iff)
  moreover from x assms(3) have "?x div size_ht t \<le> ?x"
    by (cases "?x = 0") (simp_all add: int_div_le_self)
  ultimately have 3: "c_int (?x div size_ht t) = Some (?x div size_ht t)"
    using assms(2) by (simp add: c_int_def INT_MIN_def)
  show ?thesis unfolding ht_load_def by (simp add: 1 2 3)
qed

lemma ht_insert_placed:
  assumes "ht_load t = Some load" "(if 70 < load then ht_resize_up t else Some t) = Some t1"
    and "ht_insert t k v = Some t'"
  shows "\<exists>j. placed t1 (Item k v) k j t'"
proof -
  from assms obtain index cur where
    it: "item_at t1 index = Some cur"
    and l: "ht_insert_loop t1 (Item k v) k index cur 1 = Some t'"
    by (subst (asm) ht_insert_unfold) (auto simp: ht_new_item_def split: Option.bind_splits)
  from ht_insert_loop_result [OF l it] show ?thesis by simp
qed

lemma plain_new: "plain (ht_new_sized bs)"
  unfolding plain_def using ht_new_sized_count [of bs] by (simp add: ht_new_sized_def)

lemma plain_placed:
  assumes "placed t item k j t'" "plain t"
  shows "plain t'"
proof -
  from placed_fields(6) [OF assms(1)] have "set (items t') \<subseteq> insert (Ptr item) (set (items t))"
    by (simp add: set_update_subset_insert)
  with assms(2) have "HT_DELETED_ITEM \<notin> set (items t')" by (auto simp: plain_def)
  with placed_count [OF assms(1)] assms(2) show ?thesis by (simp add: plain_def)
qed

lemma keys_in_new: "keys_in K (ht_new_sized bs)"
  by (simp add: keys_in_def ht_new_sized_def live_def)

lemma keys_in_placed:
  assumes "placed t item k j t'" "keys_in K t" "item_key item \<in> K"
  shows "keys_in K t'"
proof -
  from placed_fields(6) [OF assms(1)] have "set (items t') \<subseteq> insert (Ptr item) (set (items t))"
    by (simp add: set_update_subset_insert)
  with assms(2,3) show ?thesis by (auto simp: keys_in_def)
qed

lemma placed_count_le:
  assumes "placed t item k j t'"
  shows "count t' \<le> count t + 1"
  using assms by (auto simp: placed_def)

lemma plain_null:
  assumes "plain t" "count t < int (length (items t))"
  shows "NULL \<in> set (items t)"
proof (rule ccontr)
  assume "NULL \<notin> set (items t)"
  with assms(1) have "\<forall>b \<in> set (items t). live b" by (auto simp: plain_def live_def)
  then have "filter live (items t) = items t" by (simp add: filter_id_conv)
  with assms show False by (simp add: plain_def live_count_def)
qed

lemma ofold_unit_defined:
  "(\<And>x. x \<in> set xs \<Longrightarrow> f x () = Some ()) \<Longrightarrow> ofold f xs () = Some ()"
  by (induction xs) simp_all

lemma ht_del_hash_table_defined:
  assumes "length (items t) = nat (size_ht t)" "HT_DELETED_ITEM \<notin> set (items t)"
  shows "ht_del_hash_table t = Some ()"
  unfolding ht_del_hash_table_def
proof (rule ofold_unit_defined)
  fix i assume "i \<in> set [0..<nat (size_ht t)]"
  with assms(1) have i: "i < length (items t)" by simp
  then have "item_at t (int i) = Some (items t ! i)" by (simp add: item_at_def)
  moreover from i assms(2) have "items t ! i \<noteq> HT_DELETED_ITEM" by (metis nth_mem)
  ultimately show "do { item \<leftarrow> item_at t (int i);
      if item \<noteq> NULL then ht_del_item item else Some () } = Some ()"
    by simp
qed

lemma small_square:
  assumes "0 < (m::int)" "m \<le> 46340"
  shows "m * m \<le> INT_MAX"
proof -
  from assms have "m * m \<le> 46340 * 46340" by (intro mult_mono) simp_all
  then show ?thesis by (simp add: INT_MAX_def)
qed

lemma ht_resize_defined:
  assumes inv: "table_inv t" and nt: "HT_DELETED_ITEM \<notin> set (items t)" and ks: "keys_in K t"
    and good: "\<forall>k \<in> K. good_key k (next_prime bs)"
    and bs: "\<not> bs < HT_INITIAL_BASE_SIZE"
    and small: "next_prime bs \<le> 46340"
    and room: "live_count t * 100 < 71 * next_prime bs"
  shows "\<exists>t1. ht_resize t bs = Some t1 \<and> table_inv t1 \<and> plain t1 \<and> keys_in K t1
           \<and> base_size t1 = bs \<and> size_ht t1 = next_prime bs \<and> count t1 \<le> live_count t"
proof -
  let ?m = "next_prime bs"
  have prime: "is_prime ?m" by (rule next_prime_prime)
  then have m: "0 < ?m" by (simp add: is_prime_def prime_nat_def)
  from m small have sq: "?m * ?m \<le> INT_MAX" by (rule small_square)
  define f where "f = (\<lambda>i new_ht. do {
            item \<leftarrow> item_at t (int i);
            if item \<noteq> NULL \<and> item \<noteq> HT_DELETED_ITEM
            then ht_insert new_ht (item_key (the_item item)) (item_value (the_item item))
            else Some new_ht
          })"
  define R where "R n N \<longleftrightarrow> table_inv N \<and> plain N \<and> keys_in K N \<and> base_size N = bs
      \<and> size_ht N = ?m \<and> count N \<le> int (length (filter live (take n (items t))))" for n N
  have fold: "\<exists>N. ofold f [0..<n] (ht_new_sized bs) = Some N \<and> R n N"
    if "n \<le> length (items t)" for n
    using that
  proof (induction n)
    case 0
    have "R 0 (ht_new_sized bs)"
      unfolding R_def
      by (simp add: table_inv_new plain_new keys_in_new) (simp add: ht_new_sized_def)
    then show ?case by simp
  next
    case (Suc n)
    then obtain N where N: "ofold f [0..<n] (ht_new_sized bs) = Some N" "R n N" by auto
    from Suc.prems have n: "n < length (items t)" by simp
    then have it: "item_at t (int n) = Some (items t ! n)" by (simp add: item_at_def)
    have tk: "take (Suc n) (items t) = take n (items t) @ [items t ! n]"
      using n by (rule take_Suc_conv_app_nth)
    have "\<exists>N'. f n N = Some N' \<and> R (Suc n) N'"
    proof (cases "live (items t ! n)")
      case False
      then have "f n N = Some N" by (auto simp: f_def it live_def)
      moreover from N(2) have "R (Suc n) N" by (simp add: R_def tk)
      ultimately show ?thesis by blast
    next
      case True
      let ?k = "item_key (the_item (items t ! n))"
      let ?v = "item_value (the_item (items t ! n))"
      from True n ks have kK: "?k \<in> K" by (simp add: keys_in_def)
      from N(2) have rN: "table_inv N" "plain N" "keys_in K N" "base_size N = bs" "size_ht N = ?m"
        "count N \<le> int (length (filter live (take n (items t))))" by (simp_all add: R_def)
      have "filter live (items t) = filter live (take n (items t)) @ filter live (drop n (items t))"
        by (simp flip: filter_append)
      then have "length (filter live (take n (items t))) \<le> length (filter live (items t))"
        by simp
      with rN(6) have cn: "count N \<le> live_count t" by (simp add: live_count_def)
      from rN(2) have c0: "0 \<le> count N" by (simp add: plain_def live_count_def)
      from cn room have c100: "count N * 100 < 71 * ?m" by simp
      from small have "71 * ?m \<le> INT_MAX" by (simp add: INT_MAX_def)
      with c100 have "count N * 100 \<le> INT_MAX" by simp
      from ht_load_value [OF c0 this] m rN(5)
      have load: "ht_load N = Some (count N * 100 div ?m)" by simp
      from c100 m have le70: "count N * 100 div ?m \<le> 70" by (rule div_le_70)
      then have step: "(if 70 < count N * 100 div ?m then ht_resize_up N else Some N) = Some N"
        by simp
      from rN(1) have len: "length (items N) = nat (size_ht N)" by (simp add: table_inv_def)
      from c100 c0 m have "count N < ?m" by linarith
      with len rN(5) m have "count N < int (length (items N))" by simp
      with rN(2) have null: "NULL \<in> set (items N)" by (rule plain_null)
      from c100 small have cmax: "count N < INT_MAX" by (simp add: INT_MAX_def)
      from c0 have cmin: "INT_MIN \<le> count N + 1" by (simp add: INT_MIN_def)
      have "\<exists>N'. ht_insert N ?k ?v = Some N'"
      proof (rule ht_insert_defined [OF load step rN(1)])
        show "is_prime (size_ht N)" using prime rN(5) by simp
        show "size_ht N * size_ht N \<le> INT_MAX" using sq rN(5) by simp
        show "good_key ?k (size_ht N)" using good kK rN(5) by simp
      qed (rule null, rule cmin, rule cmax)
      then obtain N' where N': "ht_insert N ?k ?v = Some N'" by blast
      from ht_insert_placed [OF load step N'] obtain j where
        p: "placed N (Item ?k ?v) ?k j N'" by blast
      have "R (Suc n) N'"
        unfolding R_def
      proof (intro conjI)
        show "table_inv N'" using ht_insert_correct [OF N' rN(1)] by simp
        show "plain N'" using p rN(2) by (rule plain_placed)
        show "keys_in K N'" by (rule keys_in_placed [OF p rN(3)]) (simp add: kK)
        show "base_size N' = bs" using placed_fields(2) [OF p] rN(4) by simp
        show "size_ht N' = ?m" using placed_fields(1) [OF p] rN(5) by simp
        show "count N' \<le> int (length (filter live (take (Suc n) (items t))))"
          using placed_count_le [OF p] rN(6) True by (simp add: tk)
      qed
      moreover from True have "f n N = ht_insert N ?k ?v" by (simp add: f_def it live_def)
      ultimately show ?thesis using N' by simp
    qed
    then obtain N' where "f n N = Some N'" "R (Suc n) N'" by blast
    with N(1) show ?case by (simp add: ofold_append)
  qed
  from inv have len: "length (items t) = nat (size_ht t)" by (simp add: table_inv_def)
  from fold [of "length (items t)"] obtain N where
    N: "ofold f [0..<length (items t)] (ht_new_sized bs) = Some N" "R (length (items t)) N"
    by auto
  from nt len have del: "ht_del_hash_table (N\<lparr>size_ht := size_ht t, items := items t\<rparr>) = Some ()"
    by (intro ht_del_hash_table_defined) simp_all
  have eq: "t\<lparr>base_size := base_size N, count := count N, size_ht := size_ht N, items := items N\<rparr> = N"
    by (rule ht_hash_table.equality) simp_all
  from N(1) del bs have "ht_resize t bs = Some N"
    unfolding ht_resize_def ht_resize_with_def f_def [symmetric] len [symmetric]
    by (simp add: eq)
  with N(2) show ?thesis by (simp add: R_def live_count_def)
qed





section \<open>Inserts with distinct keys\<close>



section \<open>The count after a resize, whatever it was before\<close>

text \<open>
  C9 (as amended). Whenever a resize that takes effect (the new base size is at least
  the minimum) returns, it returns a table whose \<open>count\<close> is the number of its live
  entries, whatever the difference was before: a difference between \<open>count\<close> and the
  live entries is not carried through it. A resize to a base size below the minimum
  returns the table as it was. A resize that takes effect returns at least when the
  table was reached through the interface, holds no tombstone, has few enough live
  entries for the new table to stay at a load below 71, the new table has at most 46340
  buckets, and the probe sequences of its keys are well defined, with a step that does
  not vanish, in the new table.
\<close>

theorem ht_resize_count:
  "(ht_resize ht bs = Some ht' \<longrightarrow>
      (if bs < HT_INITIAL_BASE_SIZE then ht' = ht else count ht' - live_count ht' = 0))
   \<and> (ht_run ops = Some ht \<and> HT_DELETED_ITEM \<notin> set (items ht)
        \<and> (\<forall>b \<in> set (items ht). live b \<longrightarrow> good_key (item_key (the_item b)) (next_prime bs))
        \<and> \<not> bs < HT_INITIAL_BASE_SIZE \<and> next_prime bs \<le> 46340
        \<and> live_count ht * 100 < 71 * next_prime bs
      \<longrightarrow> (\<exists>ht1. ht_resize ht bs = Some ht1))"
proof (intro conjI impI)
  assume r: "ht_resize ht bs = Some ht'"
  show "if bs < HT_INITIAL_BASE_SIZE then ht' = ht else count ht' - live_count ht' = 0"
  proof (cases "bs < HT_INITIAL_BASE_SIZE")
    case True
    with r show ?thesis by (simp add: ht_resize_noop)
  next
    case False
    from r False have "count ht' = live_count ht'" by (rule ht_resize_live_count)
    with False show ?thesis by simp
  qed
next
  assume a: "ht_run ops = Some ht \<and> HT_DELETED_ITEM \<notin> set (items ht)
        \<and> (\<forall>b \<in> set (items ht). live b \<longrightarrow> good_key (item_key (the_item b)) (next_prime bs))
        \<and> \<not> bs < HT_INITIAL_BASE_SIZE \<and> next_prime bs \<le> 46340
        \<and> live_count ht * 100 < 71 * next_prime bs"
  then have inv: "table_inv ht" by (auto intro: table_inv_run)
  then have len: "length (items ht) = nat (size_ht ht)" by (simp add: table_inv_def)
  define K where "K = {k. good_key k (next_prime bs)}"
  from a have ks: "keys_in K ht" by (simp add: keys_in_def K_def)
  have "\<exists>t1. ht_resize ht bs = Some t1 \<and> table_inv t1 \<and> plain t1 \<and> keys_in K t1
           \<and> base_size t1 = bs \<and> size_ht t1 = next_prime bs \<and> count t1 \<le> live_count ht"
  proof (rule ht_resize_defined [OF inv _ ks])
  qed (use a in \<open>simp_all add: K_def\<close>)
  then show "\<exists>ht1. ht_resize ht bs = Some ht1" by blast
qed

text \<open>
  One insert and the delete of an absent key leave \<open>count = 0\<close> with one live entry; a
  resize of that table to the base size 100 returns a table with \<open>count = 1\<close>.
\<close>

theorem ht_resize_count_witness:
  "\<exists>T T'. ht_run [Insert ''a'' ''1'', Delete '',''] = Some T
     \<and> count T - live_count T = - 1
     \<and> item_at T 44 = Some (Ptr (Item ''a'' ''1''))
     \<and> good_key ''a'' (next_prime 100)
     \<and> ht_resize T 100 = Some T'
     \<and> count T' - live_count T' = 0"
proof -
  let ?ops = "[Insert ''a'' ''1'', Delete '','']"
  have 1: "map_option (\<lambda>t. (count t - live_count t, item_at t 44, live_count t,
              HT_DELETED_ITEM \<in> set (items t),
              \<forall>b \<in> set (items t). live b \<longrightarrow> good_key (item_key (the_item b)) (next_prime 100)))
            (ht_run ?ops)
      = Some (- 1, Some (Ptr (Item ''a'' ''1'')), 1, False, True)" by code_simp
  then obtain T where T: "ht_run ?ops = Some T" "count T - live_count T = - 1"
    "item_at T 44 = Some (Ptr (Item ''a'' ''1''))" "live_count T = 1"
    "HT_DELETED_ITEM \<notin> set (items T)"
    "\<forall>b \<in> set (items T). live b \<longrightarrow> good_key (item_key (the_item b)) (next_prime 100)"
    by auto
  have np: "next_prime 100 = 101" by code_simp
  have g: "good_key ''a'' (next_prime 100)" by code_simp
  have bs: "\<not> 100 < HT_INITIAL_BASE_SIZE" by code_simp
  from ht_resize_count [of T 100 _ ?ops] T bs obtain T' where h: "ht_resize T 100 = Some T'"
    by (auto simp: np HT_INITIAL_BASE_SIZE_def)
  from ht_resize_count [of T 100 T' ?ops] h bs have "count T' - live_count T' = 0"
    by (simp add: HT_INITIAL_BASE_SIZE_def)
  with T g h show ?thesis by blast
qed

text \<open>
  The claim as stated fails: the table with 39 live entries and \<open>count = 38\<close> has a
  load of 71, and the resize-up that \<^verbatim>\<open>ht_insert\<close> would start with returns a table
  whose \<open>count\<close> equals its number of live entries.
\<close>

theorem ht_resize_count_counterexample:
  "\<exists>T T'. ht_run (map (\<lambda>k. Insert k ''v'') (take 38 keys39) @ [Delete ''zz'', Insert ''n'' ''v'']) = Some T
     \<and> count T - live_count T = - 1
     \<and> ht_load T = Some 71
     \<and> ht_resize_up T = Some T'
     \<and> count T' - live_count T' = 0"
proof -
  let ?ops = "map (\<lambda>k. Insert k ''v'') (take 38 keys39) @ [Delete ''zz'', Insert ''n'' ''v'']"
  have 1: "map_option (\<lambda>t. (count t - live_count t, ht_load t,
               map_option (\<lambda>t'. count t' - live_count t') (ht_resize_up t))) (ht_run ?ops)
             = Some (- 1, Some 71, Some 0)" by code_simp
  then obtain T where T: "ht_run ?ops = Some T" "count T - live_count T = - 1" "ht_load T = Some 71"
    "map_option (\<lambda>t'. count t' - live_count t') (ht_resize_up T) = Some 0" by auto
  from T(4) obtain T' where "ht_resize_up T = Some T'" "count T' - live_count T' = 0" by auto
  with T show ?thesis by blast
qed

section \<open>A delete that resizes a table with tombstones\<close>

text \<open>
  C3. The 39 keys of \<open>keys39\<close> are inserted (the last insert resizes the table up to 101
  buckets) and the first 29 of them are deleted, which leaves 29 tombstones and
  \<open>count = 10\<close>. The key \<^verbatim>\<open>"e"\<close> is still found. Its delete computes a load of 9 and
  starts with a resize-down to the base size 50: \<^verbatim>\<open>ht_resize\<close> rebuilds the table and
  hands the old bucket array to \<^verbatim>\<open>ht_del_hash_table\<close>, which calls \<^verbatim>\<open>ht_del_item\<close> on
  every bucket that is not null, the tombstones included. \<^verbatim>\<open>free\<close> of the static
  \<^verbatim>\<open>HT_DELETED_ITEM\<close> is undefined: the delete has no result, and no search follows it.
  With the tombstones taken out of the bucket array, the same resize-down returns.
\<close>

theorem ht_delete_frees_tombstone:
  "\<exists>T. ht_run (map (\<lambda>k. Insert k ''v'') keys39 @ map Delete (take 29 keys39)) = Some T
     \<and> ht_search T ''e'' = Some (Some ''v'', T)
     \<and> ht_load T = Some 9 \<and> base_size T = 100
     \<and> HT_DELETED_ITEM \<in> set (items T)
     \<and> ht_del_hash_table T = None
     \<and> ht_resize_down T = None
     \<and> ht_delete T ''e'' = None
     \<and> ht_resize_down (T\<lparr>items := map (\<lambda>b. if b = HT_DELETED_ITEM then NULL else b) (items T)\<rparr>)
           \<noteq> None"
proof -
  let ?ops = "map (\<lambda>k. Insert k ''v'') keys39 @ map Delete (take 29 keys39)"
  have 1: "map_option (\<lambda>t. (map_option fst (ht_search t ''e''), ht_load t, base_size t,
              HT_DELETED_ITEM \<in> set (items t), ht_del_hash_table t,
              map_option (\<lambda>t'. ()) (ht_resize_down t), map_option (\<lambda>t'. ()) (ht_delete t ''e''),
              map_option (\<lambda>t'. ()) (ht_resize_down
                (t\<lparr>items := map (\<lambda>b. if b = HT_DELETED_ITEM then NULL else b) (items t)\<rparr>))))
            (ht_run ?ops)
      = Some (Some (Some ''v''), Some 9, 100, True, None, None, None, Some ())" by code_simp
  then obtain T where T: "ht_run ?ops = Some T"
    "map_option fst (ht_search T ''e'') = Some (Some ''v'')" "ht_load T = Some 9"
    "base_size T = 100" "HT_DELETED_ITEM \<in> set (items T)" "ht_del_hash_table T = None"
    "ht_resize_down T = None" "ht_delete T ''e'' = None"
    "ht_resize_down (T\<lparr>items := map (\<lambda>b. if b = HT_DELETED_ITEM then NULL else b) (items T)\<rparr>)
           \<noteq> None" by auto
  from T(2) obtain r where r: "ht_search T ''e'' = Some r" "fst r = Some ''v''" by auto
  with ht_search_same [OF r(1)] have "ht_search T ''e'' = Some (Some ''v'', T)"
    by (cases r) simp
  with T show ?thesis by blast
qed

end
